theory Spec2Isabelle
  imports Main "HOL-Library.Word" "HOL-Library.Finite_Map"
begin

section \<open>Bytes, integers on the wire and library functions\<close>

text \<open>
  Both blocks work on \<^verbatim>\<open>np.uint8\<close> items and Python \<^verbatim>\<open>bytes\<close>: a byte is an 8-bit word,
  a byte string a list of them. Python's integers are unbounded and never negative where
  they are lengths, offsets or unpacked unsigned fields, so they are \<open>nat\<close>; the one
  configuration value that may be negative (\<^verbatim>\<open>max_buffer\<close>) is an \<open>int\<close>.
\<close>

type_synonym byte = "8 word"
type_synonym bytes = "byte list"

datatype error = ValueError | StructError | TypeError | OSError | ZeroDivisionError

text \<open>A bytes literal such as \<^verbatim>\<open>b"FILE"\<close>: the ASCII codes of its characters.\<close>

definition ascii :: "string \<Rightarrow> bytes" where
  "ascii cs = map (\<lambda>c. of_nat (of_char c)) cs"

definition magic :: bytes where
  "magic = ascii ''FILE''"

text \<open>The slice \<^verbatim>\<open>xs[a:b]\<close> for \<open>0 \<le> a\<close>, \<open>0 \<le> b\<close>; it is clipped at the end of \<open>xs\<close>, as in Python.\<close>

definition py_slice :: "nat \<Rightarrow> nat \<Rightarrow> 'a list \<Rightarrow> 'a list" where
  "py_slice a b xs = take (b - a) (drop a xs)"

text \<open>
  \<^verbatim>\<open>struct.unpack("<H", b)[0]\<close> and \<^verbatim>\<open>struct.unpack("<Q", b)[0]\<close> read an unsigned little-endian
  integer; \<^verbatim>\<open>struct.pack\<close> writes one and raises \<^verbatim>\<open>struct.error\<close> when the value does not fit.
\<close>

fun unpack_le :: "bytes \<Rightarrow> nat" where
  "unpack_le [] = 0"
| "unpack_le (b # bs) = unat b + 256 * unpack_le bs"

fun le_bytes :: "nat \<Rightarrow> nat \<Rightarrow> bytes" where
  "le_bytes 0 n = []"
| "le_bytes (Suc k) n = of_nat (n mod 256) # le_bytes k (n div 256)"

definition pack_le :: "nat \<Rightarrow> nat \<Rightarrow> error + bytes" where
  "pack_le k n = (if n < 256 ^ k then Inr (le_bytes k n) else Inl StructError)"

text \<open>
  The functions of Python's library whose result depends on the platform or on the Unicode
  tables are parameters of the model: \<^verbatim>\<open>os.path.basename\<close>, \<^verbatim>\<open>os.path.join\<close>,
  \<^verbatim>\<open>os.path.splitext\<close>, \<^verbatim>\<open>str.encode("utf-8", errors="ignore")\<close> and
  \<^verbatim>\<open>bytes.decode("utf-8", errors="ignore")\<close>. A Python \<^verbatim>\<open>str\<close> is a \<open>string\<close>.
\<close>

record pylib =
  basename :: "string \<Rightarrow> string"
  path_join :: "string \<Rightarrow> string \<Rightarrow> string"
  splitext :: "string \<Rightarrow> string \<times> string"
  utf8_encode :: "string \<Rightarrow> bytes"
  utf8_decode :: "bytes \<Rightarrow> string"

text \<open>\<^verbatim>\<open>s.strip("\x00")\<close> removes the NUL characters at both ends.\<close>

definition strip_nul :: "string \<Rightarrow> string" where
  "strip_nul cs = rev (dropWhile (\<lambda>c. c = CHR 0x00) (rev (dropWhile (\<lambda>c. c = CHR 0x00) cs)))"

text \<open>\<^verbatim>\<open>f"{k}"\<close> for an integer \<open>k \<ge> 0\<close>: its decimal digits.\<close>

fun str_nat :: "nat \<Rightarrow> string" where
  "str_nat n = (if n < 10 then [char_of (48 + n)] else str_nat (n div 10) @ [char_of (48 + n mod 10)])"

declare str_nat.simps [simp del]

text \<open>
  \<^verbatim>\<open>bytearray.find(sub, start)\<close>: the lowest index \<open>\<ge> start\<close> at which \<open>sub\<close> occurs, or \<open>-1\<close>
  (here \<open>None\<close>).
\<close>

function find_sub :: "'a list \<Rightarrow> 'a list \<Rightarrow> nat \<Rightarrow> nat option" where
  "find_sub sub xs start =
     (if length xs < start + length sub then None
      else if take (length sub) (drop start xs) = sub then Some start
      else find_sub sub xs (Suc start))"
  by pat_completeness auto
termination
  by (relation "measure (\<lambda>(sub, xs, start). Suc (length xs) - start)") auto

declare find_sub.simps [simp del]

section \<open>The file reassembler (\<^verbatim>\<open>mpsk_stage6_epy_block_0.py\<close>)\<close>

text \<open>
  The session is the object's fields. The files of the receiving host are one more field,
  \<open>disk\<close>: a finite map from paths to contents, changed only by this block. Opening a file
  for writing, writing, removing and renaming succeed on it; what a write buffers is taken
  as written. \<^verbatim>\<open>_log\<close> only prints and is left out.
\<close>

datatype rx_state = SCAN | RECV | DONE

type_synonym disk = "(string, bytes) fmap"

record reasm =
  out_dir :: string
  debug :: bool
  overwrite :: bool
  max_buffer :: int
  state :: rx_state
  buf :: bytes
  meta_len :: "nat option"
  file_size :: "nat option"
  file_name :: "string option"
  fh :: "string option"
  part_path :: "string option"
  final_path :: "string option"
  written :: nat
  done_flag :: bool
  disk :: disk

definition rx_init :: "string \<Rightarrow> bool \<Rightarrow> bool \<Rightarrow> int \<Rightarrow> disk \<Rightarrow> reasm" where
  "rx_init od dbg ovw mb d =
     \<lparr>out_dir = od, debug = dbg, overwrite = ovw, max_buffer = mb,
      state = SCAN, buf = [],
      meta_len = None, file_size = None, file_name = None,
      fh = None, part_path = None, final_path = None,
      written = 0, done_flag = False, disk = d\<rparr>"

definition close_fh :: "reasm \<Rightarrow> reasm" where
  "close_fh s = s\<lparr>fh := None\<rparr>"

definition path_exists :: "disk \<Rightarrow> string \<Rightarrow> bool" where
  "path_exists d p = (fmlookup d p \<noteq> None)"

definition max_path_len :: "disk \<Rightarrow> nat" where
  "max_path_len d = Max (insert 0 (length ` fset (fmdom d)))"

definition suffixed :: "string \<Rightarrow> nat \<Rightarrow> string \<Rightarrow> string" where
  "suffixed base k ext = base @ ''_'' @ str_nat k @ ext"

lemma str_nat_bound: "n < 10 ^ length (str_nat n)"
proof (induction n rule: str_nat.induct)
  case (1 n)
  show ?case
  proof (cases "n < 10")
    case True
    then show ?thesis by (subst str_nat.simps) simp
  next
    case False
    with 1 have "n div 10 < 10 ^ length (str_nat (n div 10))" by simp
    then have "n < 10 * 10 ^ length (str_nat (n div 10))" by linarith
    with False show ?thesis by (subst str_nat.simps) simp
  qed
qed

lemma path_exists_len: "path_exists d p \<Longrightarrow> length p \<le> max_path_len d"
proof -
  assume "path_exists d p"
  then have "p \<in> fset (fmdom d)"
    by (auto simp: path_exists_def fmlookup_dom_iff)
  then have "length p \<in> insert 0 (length ` fset (fmdom d))" by simp
  then show ?thesis unfolding max_path_len_def by (intro Max_ge) auto
qed

lemma suffixed_exists_bound:
  assumes "path_exists d (suffixed base k ext) \<or> path_exists d (suffixed base k ext @ ''.part'')"
  shows "k < 10 ^ max_path_len d"
proof -
  from assms have "length (str_nat k) \<le> max_path_len d"
    by (auto dest!: path_exists_len simp: suffixed_def)
  then have "(10::nat) ^ length (str_nat k) \<le> 10 ^ max_path_len d"
    by (intro power_increasing) auto
  with str_nat_bound [of k] show ?thesis by linarith
qed

text \<open>The \<^verbatim>\<open>while\<close> loop of \<^verbatim>\<open>_open_out\<close>: the first \<open>k\<close> whose two names are both free.\<close>

function free_suffix :: "disk \<Rightarrow> string \<Rightarrow> string \<Rightarrow> nat \<Rightarrow> nat" where
  "free_suffix d base ext k =
     (if path_exists d (suffixed base k ext) \<or> path_exists d (suffixed base k ext @ ''.part'')
      then free_suffix d base ext (k + 1) else k)"
  by pat_completeness auto
termination
proof (relation "measure (\<lambda>(d, base, ext, k). 10 ^ max_path_len d - k)")
  show "wf (measure (\<lambda>(d, base, ext, k). 10 ^ max_path_len d - k))" by simp
next
  fix d :: disk and base ext :: string and k :: nat
  assume "path_exists d (suffixed base k ext) \<or> path_exists d (suffixed base k ext @ ''.part'')"
  then have "k < 10 ^ max_path_len d" by (rule suffixed_exists_bound)
  then show "((d, base, ext, k + 1), (d, base, ext, k))
      \<in> measure (\<lambda>(d, base, ext, k). 10 ^ max_path_len d - k)" by simp
qed

declare free_suffix.simps [simp del]

definition open_out :: "pylib \<Rightarrow> reasm \<Rightarrow> string option \<Rightarrow> nat option \<Rightarrow> reasm" where
  "open_out lib s name expect =
     (let safe = (case name of None \<Rightarrow> ''recv.bin''
                  | Some n \<Rightarrow> if n \<noteq> [] then basename lib n else ''recv.bin'');
          final = path_join lib (out_dir s) safe;
          final = (if \<not> overwrite s \<and> path_exists (disk s) final
                   then (case splitext lib final of
                           (base, ext) \<Rightarrow> suffixed base (free_suffix (disk s) base ext 1) ext)
                   else final);
          part = final @ ''.part'';
          s = s\<lparr>final_path := Some final, part_path := Some part\<rparr>;
          s = close_fh s
      in s\<lparr>fh := Some part, disk := fmupd part [] (disk s), written := 0\<rparr>)"

text \<open>
  \<^verbatim>\<open>_finish\<close>: close, remove an existing final file, rename. \<^verbatim>\<open>os.replace\<close> raises
  \<^verbatim>\<open>TypeError\<close> on a path that is \<^verbatim>\<open>None\<close> and \<^verbatim>\<open>OSError\<close> when the source does not exist.
\<close>

definition finish :: "reasm \<Rightarrow> error + reasm" where
  "finish s =
     (let s = close_fh s in
      case (part_path s, final_path s) of
        (Some part, Some final) \<Rightarrow>
          (let d = (if path_exists (disk s) final then fmdrop final (disk s) else disk s) in
           case fmlookup d part of
             None \<Rightarrow> Inl OSError
           | Some content \<Rightarrow> Inr (s\<lparr>disk := fmupd final content (fmdrop part d)\<rparr>))
      | _ \<Rightarrow> Inl TypeError)"

definition try_parse_meta_at :: "pylib \<Rightarrow> reasm \<Rightarrow> nat \<Rightarrow> bool \<times> reasm" where
  "try_parse_meta_at lib s idx =
     (if length (buf s) < idx + 16 then (False, s)
      else if py_slice idx (idx + 4) (buf s) \<noteq> magic then (False, s)
      else
        let ver = buf s ! (idx + 4);
            mlen = unpack_le (py_slice (idx + 5) (idx + 7) (buf s));
            name_len = unat (buf s ! (idx + 7));
            fsize = unpack_le (py_slice (idx + 8) (idx + 16) (buf s))
        in
          if ver \<noteq> 1 then (False, s)
          else if mlen < 16 \<or> mlen > 4096 then (False, s)
          else if name_len > 255 then (False, s)
          else if fsize \<le> 0 \<or> fsize > 1024 ^ 3 then (False, s)
          else if length (buf s) < idx + mlen then (False, s)
          else
            let name_end = idx + 16 + name_len in
            if name_end > idx + mlen then (False, s)
            else
              let name = strip_nul (utf8_decode lib (py_slice (idx + 16) name_end (buf s)));
                  name = (if name = [] then ''recv.bin'' else name)
              in (True, s\<lparr>meta_len := Some mlen, file_size := Some fsize,
                           file_name := Some name\<rparr>))"

lemma try_parse_buf: "buf (snd (try_parse_meta_at lib s idx)) = buf s"
  by (simp add: try_parse_meta_at_def Let_def)

lemma find_sub_bounds:
  "find_sub sub xs start = Some i \<Longrightarrow> start \<le> i \<and> i + length sub \<le> length xs"
proof (induction sub xs start rule: find_sub.induct)
  case (1 sub xs start)
  then show ?case
    by (subst (asm) (2) find_sub.simps) (auto split: if_splits)
qed

text \<open>
  What the \<^verbatim>\<open>SCAN\<close> branch does once \<^verbatim>\<open>_try_parse_meta_at(idx)\<close> has returned \<^verbatim>\<open>True\<close>, on the
  session \<open>s\<close> the parse has left: drop the bytes before the header, drop the header, open the
  output, go to \<^verbatim>\<open>RECV\<close>. \<^verbatim>\<open>del self.buf[:self.meta_len]\<close> with \<^verbatim>\<open>meta_len\<close> still \<^verbatim>\<open>None\<close> would
  empty the buffer.
\<close>

definition scan_accept :: "pylib \<Rightarrow> reasm \<Rightarrow> nat \<Rightarrow> reasm" where
  "scan_accept lib s idx =
     (let s = (if idx > 0 then s\<lparr>buf := drop idx (buf s)\<rparr> else s);
          s = s\<lparr>buf := (case meta_len s of None \<Rightarrow> [] | Some m \<Rightarrow> drop m (buf s))\<rparr>;
          s = open_out lib s (file_name s) (file_size s)
      in s\<lparr>state := RECV\<rparr>)"

text \<open>The \<^verbatim>\<open>while True\<close> loop of the \<^verbatim>\<open>SCAN\<close> branch, from search position \<open>start\<close>.\<close>

function scan_loop :: "pylib \<Rightarrow> reasm \<Rightarrow> nat \<Rightarrow> reasm" where
  "scan_loop lib s start =
     (case find_sub magic (buf s) start of
        None \<Rightarrow> s
      | Some idx \<Rightarrow>
          if fst (try_parse_meta_at lib s idx)
          then scan_accept lib (snd (try_parse_meta_at lib s idx)) idx
          else scan_loop lib (snd (try_parse_meta_at lib s idx)) (idx + 1))"
  by pat_completeness auto
termination
proof (relation "measure (\<lambda>(lib, s, start). length (buf s) - start)")
  show "wf (measure (\<lambda>(lib, s, start). length (buf s) - start))" by simp
next
  fix lib :: pylib and s :: reasm and start idx :: nat
  assume "find_sub magic (buf s) start = Some idx"
  then have "start \<le> idx" "idx + length magic \<le> length (buf s)"
    by (auto dest: find_sub_bounds)
  then show "((lib, snd (try_parse_meta_at lib s idx), idx + 1), (lib, s, start))
      \<in> measure (\<lambda>(lib, s, start). length (buf s) - start)"
    by (simp add: try_parse_buf magic_def ascii_def)
qed

declare scan_loop.simps [simp del]

text \<open>The \<^verbatim>\<open>RECV\<close> branch of \<^verbatim>\<open>general_work\<close>.\<close>

definition recv_step :: "reasm \<Rightarrow> error + reasm" where
  "recv_step s =
     (if state s = RECV \<and> fh s \<noteq> None then
        (case (file_size s, fh s) of
           (Some fsz, Some path) \<Rightarrow>
             (let remain = fsz - written s;
                  s = (if remain > 0 \<and> length (buf s) > 0 then
                         (let n = min remain (length (buf s));
                              chunk = take n (buf s);
                              old = (case fmlookup (disk s) path of None \<Rightarrow> [] | Some c \<Rightarrow> c)
                          in s\<lparr>disk := fmupd path (old @ chunk) (disk s),
                               written := written s + n,
                               buf := drop n (buf s)\<rparr>)
                       else s)
              in if written s \<ge> fsz
                 then (case finish s of
                         Inl e \<Rightarrow> Inl e
                       | Inr s \<Rightarrow> Inr (s\<lparr>done_flag := True, state := DONE\<rparr>))
                 else Inr s)
         | _ \<Rightarrow> Inl TypeError)
      else Inr s)"

definition rx_general_work :: "pylib \<Rightarrow> reasm \<Rightarrow> bytes \<Rightarrow> error + reasm" where
  "rx_general_work lib s inp =
     (if done_flag s then Inr s
      else
        let s = s\<lparr>buf := buf s @ inp\<rparr>;
            s = (if int (length (buf s)) > max_buffer s
                 then s\<lparr>buf := drop (length (buf s) - 1024 * 1024) (buf s)\<rparr> else s);
            s = (if state s = SCAN then scan_loop lib s 0 else s)
        in recv_step s)"

definition stop :: "reasm \<Rightarrow> reasm" where
  "stop s = close_fh s"


section \<open>The tagged meta+file source (\<^verbatim>\<open>data_epy_block_0.py\<close>)\<close>

text \<open>
  What the sending host answers about \<^verbatim>\<open>filepath\<close>: the size \<^verbatim>\<open>os.path.getsize\<close> returns and
  the bytes a handle from \<^verbatim>\<open>open(filepath, "rb")\<close> reads, each \<open>None\<close> when the call raises.
  The two are independent (a file may be listed and unreadable).
\<close>

record src_env =
  stat_size :: "nat option"
  contents :: "bytes option"

datatype tx_phase = Meta | File | Zeros

text \<open>
  The object's fields (\<open>tx_meta\<close>, \<open>tx_fh\<close>, \<open>phase\<close> and \<open>file_bytes_left\<close> are \<^verbatim>\<open>_meta\<close>,
  \<^verbatim>\<open>_fh\<close>, \<^verbatim>\<open>_phase\<close> and \<^verbatim>\<open>_file_bytes_left\<close>; \<open>tx_meta_len\<close> is \<^verbatim>\<open>meta_len\<close>). An open handle
  is the bytes it has not read yet. \<open>nitems_written\<close> and \<open>tags\<close> belong to the scheduler: the
  number of items produced so far on output 0, moved by \<^verbatim>\<open>produce\<close>, and the tags added by
  \<^verbatim>\<open>add_item_tag\<close> as (offset, key, value).
\<close>

record source =
  filepath :: string
  tx_meta_len :: nat
  repeat :: bool
  len_tag_key :: string
  tx_meta :: bytes
  tx_fh :: "bytes option"
  phase :: tx_phase
  file_bytes_left :: nat
  nitems_written :: nat
  tags :: "(nat \<times> string \<times> nat) list"

definition get_size :: "src_env \<Rightarrow> nat" where
  "get_size env = (case stat_size env of None \<Rightarrow> 0 | Some n \<Rightarrow> n)"

definition build_meta :: "pylib \<Rightarrow> src_env \<Rightarrow> string \<Rightarrow> nat \<Rightarrow> error + bytes" where
  "build_meta lib env fp mlen =
     (let fname = basename lib fp;
          name_b = take 255 (utf8_encode lib fname);
          name_len = length name_b;
          fsize = get_size env
      in case pack_le 1 1 of Inl e \<Rightarrow> Inl e | Inr ver \<Rightarrow>
         case pack_le 2 mlen of Inl e \<Rightarrow> Inl e | Inr ml \<Rightarrow>
         case pack_le 1 name_len of Inl e \<Rightarrow> Inl e | Inr nl \<Rightarrow>
         case pack_le 8 fsize of Inl e \<Rightarrow> Inl e | Inr fs \<Rightarrow>
           (let header = ascii ''FILE'' @ ver @ ml @ nl @ fs @ name_b
            in Inr (if length header < mlen
                    then header @ replicate (mlen - length header) 0
                    else take mlen header)))"

definition open_file :: "src_env \<Rightarrow> source \<Rightarrow> source" where
  "open_file env s = s\<lparr>tx_fh := contents env\<rparr>"

definition tx_init :: "pylib \<Rightarrow> src_env \<Rightarrow> string \<Rightarrow> int \<Rightarrow> bool \<Rightarrow> string \<Rightarrow> error + source" where
  "tx_init lib env fp mlen rep key =
     (if mlen < 16 then Inl ValueError
      else case build_meta lib env fp (nat mlen) of
        Inl e \<Rightarrow> Inl e
      | Inr m \<Rightarrow>
          (let s = \<lparr>filepath = fp, tx_meta_len = nat mlen, repeat = rep, len_tag_key = key,
                    tx_meta = m, tx_fh = None, phase = Meta, file_bytes_left = 0,
                    nitems_written = 0, tags = []\<rparr>;
               s = open_file env s
           in Inr (s\<lparr>phase := Meta, file_bytes_left := get_size env\<rparr>)))"

text \<open>
  The last statement of the loop body: \<^verbatim>\<open>if self._phase == "zeros": out[start:end] = 0\<close>,
  on the packet \<open>out\<close> the body has written so far.
\<close>

definition zeros_overwrite :: "nat \<Rightarrow> source \<Rightarrow> bytes \<Rightarrow> bytes" where
  "zeros_overwrite pkt s out = (if phase s = Zeros then replicate pkt 0 else out)"

text \<open>
  One iteration of the \<^verbatim>\<open>for\<close> loop, writing \<^verbatim>\<open>out[start:end]\<close>. Assigning an array of another
  length to the slice raises \<^verbatim>\<open>ValueError\<close>.
\<close>

definition tx_packet :: "pylib \<Rightarrow> src_env \<Rightarrow> nat \<Rightarrow> source \<Rightarrow> nat \<Rightarrow> error + source \<times> bytes" where
  "tx_packet lib env pkt s start =
     (let s = s\<lparr>tags := tags s @ [(nitems_written s + start, len_tag_key s, pkt)]\<rparr>
      in if phase s = Meta then
           (if length (tx_meta s) \<noteq> pkt then Inl ValueError
            else
              let out = tx_meta s;
                  s = s\<lparr>file_bytes_left := get_size env\<rparr>;
                  s = open_file env s;
                  s = s\<lparr>phase := File\<rparr>
              in Inr (s, zeros_overwrite pkt s out))
         else
           (let (b, s) =
                  (case tx_fh s of
                     Some rest \<Rightarrow>
                       if file_bytes_left s > 0 then
                         (let to_read = min pkt (file_bytes_left s);
                              b = take to_read rest
                          in (b, s\<lparr>tx_fh := Some (drop to_read rest),
                                    file_bytes_left := file_bytes_left s - length b\<rparr>))
                       else ([], s)
                   | None \<Rightarrow> ([], s));
                b = (if length b < pkt then b @ replicate (pkt - length b) 0 else b)
            in if length b \<noteq> pkt then Inl ValueError
               else if file_bytes_left s \<le> 0 then
                 (if repeat s then
                    (case build_meta lib env (filepath s) (tx_meta_len s) of
                       Inl e \<Rightarrow> Inl e
                     | Inr m \<Rightarrow>
                         (let s = s\<lparr>tx_meta := m, phase := Meta\<rparr>
                          in Inr (s, zeros_overwrite pkt s b)))
                  else
                    (let s = s\<lparr>phase := Zeros\<rparr>
                     in Inr (s, zeros_overwrite pkt s b)))
               else Inr (s, zeros_overwrite pkt s b)))"

text \<open>The loop over \<open>n_pkts\<close> packets; the result is the list of the slices written.\<close>

fun tx_loop :: "pylib \<Rightarrow> src_env \<Rightarrow> nat \<Rightarrow> source \<Rightarrow> nat \<Rightarrow> nat \<Rightarrow> error + source \<times> bytes list" where
  "tx_loop lib env pkt s produced 0 = Inr (s, [])"
| "tx_loop lib env pkt s produced (Suc k) =
     (case tx_packet lib env pkt s produced of
        Inl e \<Rightarrow> Inl e
      | Inr (s, p) \<Rightarrow>
          (case tx_loop lib env pkt s (produced + pkt) k of
             Inl e \<Rightarrow> Inl e
           | Inr (s, ps) \<Rightarrow> Inr (s, p # ps)))"

text \<open>
  \<^verbatim>\<open>general_work\<close> for an output buffer of \<open>n\<close> items: the new session and the items produced.
\<close>

definition tx_general_work :: "pylib \<Rightarrow> src_env \<Rightarrow> source \<Rightarrow> nat \<Rightarrow> error + source \<times> bytes" where
  "tx_general_work lib env s n =
     (let pkt = tx_meta_len s in
      if pkt = 0 then Inl ZeroDivisionError
      else
        let n_pkts = n div pkt in
        if n_pkts \<le> 0 then Inr (s, [])
        else case tx_loop lib env pkt s 0 n_pkts of
          Inl e \<Rightarrow> Inl e
        | Inr (s, ps) \<Rightarrow> Inr (s\<lparr>nitems_written := nitems_written s + n_pkts * pkt\<rparr>, concat ps))"

section \<open>A concrete library for evaluation\<close>

text \<open>
  The theorems below hold for every \<open>pylib\<close>. Where one is evaluated on a concrete input,
  the library is the POSIX one on ASCII text: \<^verbatim>\<open>posixpath\<close>'s \<^verbatim>\<open>basename\<close>, \<^verbatim>\<open>join\<close> and
  \<^verbatim>\<open>splitext\<close>, and the UTF-8 codec on bytes and characters below \<open>0x80\<close> (the others, for
  which the model's \<open>string\<close> has no exact counterpart, are dropped).
\<close>

definition posix_basename :: "string \<Rightarrow> string" where
  "posix_basename p = rev (takeWhile (\<lambda>c. c \<noteq> CHR ''/'') (rev p))"

definition posix_join :: "string \<Rightarrow> string \<Rightarrow> string" where
  "posix_join a b =
     (if b \<noteq> [] \<and> hd b = CHR ''/'' then b
      else if a = [] \<or> last a = CHR ''/'' then a @ b
      else a @ ''/'' @ b)"

definition posix_splitext :: "string \<Rightarrow> string \<times> string" where
  "posix_splitext p =
     (let name = posix_basename p;
          n = length (takeWhile (\<lambda>c. c \<noteq> CHR ''.'') (rev name))
      in if CHR ''.'' \<in> set name \<and> (\<exists>c \<in> set (take (length name - n - 1) name). c \<noteq> CHR ''.'')
         then (take (length p - n - 1) p, drop (length p - n - 1) p)
         else (p, []))"

definition ascii_encode :: "string \<Rightarrow> bytes" where
  "ascii_encode cs = map (\<lambda>c. of_nat (of_char c)) (filter (\<lambda>c. (of_char c :: nat) < 128) cs)"

definition ascii_decode :: "bytes \<Rightarrow> string" where
  "ascii_decode bs = map (\<lambda>b. char_of (unat b)) (filter (\<lambda>b. b < 128) bs)"

definition posix_lib :: pylib where
  "posix_lib = \<lparr>basename = posix_basename, path_join = posix_join, splitext = posix_splitext,
                 utf8_encode = ascii_encode, utf8_decode = ascii_decode\<rparr>"

section \<open>Header validation\<close>

text \<open>
  The header fields as the format lays them out: \<open>meta_len\<close> in bytes 5 and 6, \<open>name_len\<close>
  in byte 7, \<open>file_size\<close> in bytes 8 to 15, all from the header's first byte at \<open>off\<close>.
\<close>

definition hdr_meta_len :: "bytes \<Rightarrow> nat \<Rightarrow> nat" where
  "hdr_meta_len b off = unpack_le (py_slice (off + 5) (off + 7) b)"

definition hdr_name_len :: "bytes \<Rightarrow> nat \<Rightarrow> nat" where
  "hdr_name_len b off = unat (b ! (off + 7))"

definition hdr_file_size :: "bytes \<Rightarrow> nat \<Rightarrow> nat" where
  "hdr_file_size b off = unpack_le (py_slice (off + 8) (off + 16) b)"

text \<open>
  The seven checks the specification lists for \<^verbatim>\<open>try_parse(buffer, offset)\<close>, in its
  words: at least 16 bytes from the offset, the magic, version 1, \<open>16 \<le> meta_len \<le> 4096\<close>,
  \<open>name_len \<le> 255\<close>, \<open>0 < file_size \<le> 1 GiB\<close>, at least \<open>meta_len\<close> bytes from the offset.
\<close>

definition spec_header_checks :: "bytes \<Rightarrow> nat \<Rightarrow> bool" where
  "spec_header_checks b off =
     (off + 16 \<le> length b \<and>
      py_slice off (off + 4) b = magic \<and>
      b ! (off + 4) = 1 \<and>
      16 \<le> hdr_meta_len b off \<and> hdr_meta_len b off \<le> 4096 \<and>
      hdr_name_len b off \<le> 255 \<and>
      0 < hdr_file_size b off \<and> hdr_file_size b off \<le> 2 ^ 30 \<and>
      off + hdr_meta_len b off \<le> length b)"

text \<open>What \<^verbatim>\<open>_try_parse_meta_at\<close> checks: the seven and that the name field fits.\<close>

definition header_valid :: "bytes \<Rightarrow> nat \<Rightarrow> bool" where
  "header_valid b off =
     (spec_header_checks b off \<and> 16 + hdr_name_len b off \<le> hdr_meta_len b off)"

lemma magic_bytes: "magic = [70, 73, 76, 69]"
  by (simp add: magic_def ascii_def)

text \<open>
  A 16-byte header that declares \<open>meta_len = 16\<close>, \<open>name_len = 1\<close> and \<open>file_size = 1\<close>: its
  name field would end at byte 17, past \<open>meta_len\<close>.
\<close>

definition overflowing_header :: bytes where
  "overflowing_header = ascii ''FILE'' @ [1, 16, 0, 1] @ [1, 0, 0, 0, 0, 0, 0, 0]"

text \<open>
  C3, as stated, fails: the overflowing header passes the seven listed checks, and
  \<^verbatim>\<open>_try_parse_meta_at\<close> rejects it (the check \<^verbatim>\<open>name_end > idx + meta_len\<close>) instead of
  accepting it with a truncated name.
\<close>

theorem C3_counterexample:
  "spec_header_checks overflowing_header 0 \<and>
   hdr_meta_len overflowing_header 0 < 16 + hdr_name_len overflowing_header 0 \<and>
   \<not> fst (try_parse_meta_at posix_lib
            (rx_init ''out'' True True (4 * 1024 * 1024) fmempty\<lparr>buf := overflowing_header\<rparr>) 0)"
  by (simp add: spec_header_checks_def hdr_meta_len_def hdr_name_len_def hdr_file_size_def
      try_parse_meta_at_def rx_init_def overflowing_header_def magic_bytes ascii_def
      py_slice_def Let_def)

lemma try_parse_iff:
  "fst (try_parse_meta_at lib s idx) \<longleftrightarrow> header_valid (buf s) idx"
proof -
  have "unat (buf s ! (idx + 7)) \<le> 255"
    using unsigned_less [of "buf s ! (idx + 7)", where ?'a = nat] by simp
  then show ?thesis
    by (auto simp: try_parse_meta_at_def header_valid_def spec_header_checks_def hdr_meta_len_def
        hdr_name_len_def hdr_file_size_def Let_def)
qed

text \<open>
  C3 (amended): \<^verbatim>\<open>_try_parse_meta_at\<close> succeeds exactly when the seven listed checks hold
  and, in addition, the name field fits into the header, \<open>16 + name_len \<le> meta_len\<close>; a
  header whose name field would overflow \<open>meta_len\<close> is rejected.
\<close>

theorem C3_try_parse_iff:
  "fst (try_parse_meta_at lib s idx) \<longleftrightarrow>
     spec_header_checks (buf s) idx \<and> 16 + hdr_name_len (buf s) idx \<le> hdr_meta_len (buf s) idx"
  using try_parse_iff [of lib s idx] by (simp add: header_valid_def)

definition fitting_header :: bytes where
  "fitting_header = ascii ''FILE'' @ [1, 17, 0, 1] @ [1, 0, 0, 0, 0, 0, 0, 0] @ ascii ''a''"

theorem C3_try_parse_iff_witness:
  "fst (try_parse_meta_at posix_lib
          (rx_init ''out'' True True (4 * 1024 * 1024) fmempty\<lparr>buf := fitting_header\<rparr>) 0) \<and>
   spec_header_checks fitting_header 0 \<and>
   16 + hdr_name_len fitting_header 0 \<le> hdr_meta_len fitting_header 0"
  using C3_try_parse_iff [of posix_lib
      "rx_init ''out'' True True (4 * 1024 * 1024) fmempty\<lparr>buf := fitting_header\<rparr>" 0]
  by (simp add: spec_header_checks_def hdr_meta_len_def hdr_name_len_def hdr_file_size_def
      rx_init_def fitting_header_def magic_bytes ascii_def py_slice_def)

lemma try_parse_cases:
  "try_parse_meta_at lib s idx = (False, s) \<or> fst (try_parse_meta_at lib s idx)"
  by (simp add: try_parse_meta_at_def Let_def)

text \<open>
  C10: when \<^verbatim>\<open>_try_parse_meta_at\<close> returns \<^verbatim>\<open>False\<close>, for whatever reason, the session it
  returns is the session it was given: \<open>meta_len\<close>, \<open>file_size\<close>, \<open>file_name\<close>, the buffer and
  every other field are unchanged.
\<close>

theorem C10_parse_failure_keeps_session:
  "\<not> fst (try_parse_meta_at lib s idx) \<Longrightarrow> snd (try_parse_meta_at lib s idx) = s"
  using try_parse_cases [of lib s idx] by auto

theorem C10_parse_failure_keeps_session_witness:
  "\<not> fst (try_parse_meta_at posix_lib
            (rx_init ''out'' True True (4 * 1024 * 1024) fmempty\<lparr>buf := overflowing_header\<rparr>) 0) \<and>
   snd (try_parse_meta_at posix_lib
          (rx_init ''out'' True True (4 * 1024 * 1024) fmempty\<lparr>buf := overflowing_header\<rparr>) 0)
     = rx_init ''out'' True True (4 * 1024 * 1024) fmempty\<lparr>buf := overflowing_header\<rparr>"
proof -
  have h: "\<not> fst (try_parse_meta_at posix_lib
            (rx_init ''out'' True True (4 * 1024 * 1024) fmempty\<lparr>buf := overflowing_header\<rparr>) 0)"
    by (simp add: try_parse_meta_at_def rx_init_def overflowing_header_def magic_bytes ascii_def
        py_slice_def Let_def)
  from h C10_parse_failure_keeps_session [OF h] show ?thesis by simp
qed

section \<open>The producer's conduit contract\<close>

text \<open>
  \<^verbatim>\<open>os.path.getsize\<close> returns the 64-bit \<^verbatim>\<open>st_size\<close>; \<open>stat_ok\<close> says so, and with it
  \<^verbatim>\<open>struct.pack("<Q", fsize)\<close> does not raise. \<open>tx_inv\<close> is what the constructor establishes
  and every call keeps. A session is reachable when the constructor returned it or a call
  of \<^verbatim>\<open>general_work\<close> on a reachable session did.
\<close>

definition stat_ok :: "src_env \<Rightarrow> bool" where
  "stat_ok env = (get_size env < 2 ^ 64)"

definition tx_inv :: "source \<Rightarrow> bool" where
  "tx_inv s = (16 \<le> tx_meta_len s \<and> tx_meta_len s < 65536 \<and> length (tx_meta s) = tx_meta_len s)"

inductive tx_reachable :: "pylib \<Rightarrow> source \<Rightarrow> bool" for lib :: pylib where
  init: "stat_ok env \<Longrightarrow> tx_init lib env fp mlen rep key = Inr s \<Longrightarrow> tx_reachable lib s"
| step: "tx_reachable lib s \<Longrightarrow> stat_ok env \<Longrightarrow> tx_general_work lib env s n = Inr (s', out)
         \<Longrightarrow> tx_reachable lib s'"

lemma length_le_bytes [simp]: "length (le_bytes k n) = k"
  by (induction k arbitrary: n) auto

lemma build_meta_ok:
  assumes "mlen < 65536" "stat_ok env"
  shows "\<exists>m. build_meta lib env fp mlen = Inr m \<and> length m = mlen"
  using assms
  by (auto simp: build_meta_def pack_le_def stat_ok_def Let_def min_def)

lemma build_meta_length: "build_meta lib env fp mlen = Inr m \<Longrightarrow> length m = mlen"
  by (auto simp: build_meta_def pack_le_def Let_def min_def split: if_splits)

lemma build_meta_bound: "build_meta lib env fp mlen = Inr m \<Longrightarrow> mlen < 65536"
  by (auto simp: build_meta_def pack_le_def Let_def split: if_splits)

lemma tx_init_inv:
  assumes "tx_init lib env fp mlen rep key = Inr s"
  shows "tx_inv s \<and> nitems_written s = 0 \<and> tags s = []"
  using assms
  by (auto simp: tx_init_def tx_inv_def open_file_def Let_def
      split: if_splits sum.splits dest: build_meta_length build_meta_bound)

lemma tx_packet_ok:
  assumes "tx_inv s" "stat_ok env"
  shows "\<exists>s' p. tx_packet lib env (tx_meta_len s) s start = Inr (s', p) \<and> length p = tx_meta_len s \<and>
           tags s' = tags s @ [(nitems_written s + start, len_tag_key s, tx_meta_len s)] \<and>
           tx_inv s' \<and> tx_meta_len s' = tx_meta_len s \<and> nitems_written s' = nitems_written s \<and>
           len_tag_key s' = len_tag_key s"
proof (cases "phase s = Meta")
  case True
  with assms show ?thesis
    by (simp add: tx_packet_def tx_inv_def open_file_def zeros_overwrite_def Let_def)
next
  case False
  from assms obtain m where m: "build_meta lib env (filepath s) (tx_meta_len s) = Inr m"
    "length m = tx_meta_len s"
    using build_meta_ok [of "tx_meta_len s" env lib "filepath s"] by (auto simp: tx_inv_def)
  from False assms m show ?thesis
    by (auto simp: tx_packet_def tx_inv_def zeros_overwrite_def Let_def min_def
        split: option.splits)
qed

lemma tx_loop_ok:
  assumes "tx_inv s" "stat_ok env"
  shows "\<exists>s' ps. tx_loop lib env (tx_meta_len s) s produced k = Inr (s', ps) \<and> length ps = k \<and>
           (\<forall>p \<in> set ps. length p = tx_meta_len s) \<and>
           tags s' = tags s @ map (\<lambda>i. (nitems_written s + (produced + i * tx_meta_len s),
                                         len_tag_key s, tx_meta_len s)) [0..<k] \<and>
           tx_inv s' \<and> tx_meta_len s' = tx_meta_len s \<and> nitems_written s' = nitems_written s \<and>
           len_tag_key s' = len_tag_key s"
  using assms
proof (induction k arbitrary: s produced)
  case 0
  then show ?case by simp
next
  case (Suc k)
  from tx_packet_ok [OF Suc.prems, of lib produced] obtain s1 p where
    p: "tx_packet lib env (tx_meta_len s) s produced = Inr (s1, p)" "length p = tx_meta_len s"
       "tags s1 = tags s @ [(nitems_written s + produced, len_tag_key s, tx_meta_len s)]"
       "tx_inv s1" "tx_meta_len s1 = tx_meta_len s" "nitems_written s1 = nitems_written s"
       "len_tag_key s1 = len_tag_key s"
    by blast
  from Suc.IH [OF p(4) Suc.prems(2), of "produced + tx_meta_len s"] p(5) obtain s2 ps where
    l: "tx_loop lib env (tx_meta_len s) s1 (produced + tx_meta_len s) k = Inr (s2, ps)"
       "length ps = k" "\<forall>p \<in> set ps. length p = tx_meta_len s"
       "tags s2 = tags s1 @ map (\<lambda>i. (nitems_written s1 + (produced + tx_meta_len s + i * tx_meta_len s),
                                         len_tag_key s1, tx_meta_len s1)) [0..<k]"
       "tx_inv s2" "tx_meta_len s2 = tx_meta_len s1" "nitems_written s2 = nitems_written s1"
       "len_tag_key s2 = len_tag_key s1"
    by auto
  have "map (\<lambda>i. (nitems_written s + (produced + i * tx_meta_len s), len_tag_key s, tx_meta_len s)) [0..<Suc k]
      = (nitems_written s + produced, len_tag_key s, tx_meta_len s) #
        map (\<lambda>i. (nitems_written s + (produced + tx_meta_len s + i * tx_meta_len s), len_tag_key s, tx_meta_len s)) [0..<k]"
    by (simp add: upt_conv_Cons map_Suc_upt [symmetric] add.assoc del: upt_Suc)
  with p l show ?case by simp
qed

lemma length_concat_const:
  "\<forall>p \<in> set ps. length p = n \<Longrightarrow> length (concat ps) = n * length ps"
  by (induction ps) auto

lemma tx_general_work_ok:
  assumes "tx_inv s" "stat_ok env"
  shows "\<exists>s' out. tx_general_work lib env s n = Inr (s', out) \<and>
           length out = tx_meta_len s * (n div tx_meta_len s) \<and>
           (n < tx_meta_len s \<longrightarrow> s' = s \<and> out = []) \<and>
           tags s' = tags s @ map (\<lambda>i. (nitems_written s + i * tx_meta_len s,
                                         len_tag_key s, tx_meta_len s)) [0..<n div tx_meta_len s] \<and>
           nitems_written s' = nitems_written s + length out \<and>
           tx_inv s' \<and> tx_meta_len s' = tx_meta_len s \<and> len_tag_key s' = len_tag_key s"
proof (cases "n div tx_meta_len s = 0")
  case True
  with assms show ?thesis
    by (auto simp: tx_general_work_def tx_inv_def Let_def)
next
  case False
  from tx_loop_ok [OF assms, of lib 0 "n div tx_meta_len s"] obtain s1 ps where
    l: "tx_loop lib env (tx_meta_len s) s 0 (n div tx_meta_len s) = Inr (s1, ps)"
       "length ps = n div tx_meta_len s" "\<forall>p \<in> set ps. length p = tx_meta_len s"
       "tags s1 = tags s @ map (\<lambda>i. (nitems_written s + (0 + i * tx_meta_len s),
                                         len_tag_key s, tx_meta_len s)) [0..<n div tx_meta_len s]"
       "tx_inv s1" "tx_meta_len s1 = tx_meta_len s" "nitems_written s1 = nitems_written s"
       "len_tag_key s1 = len_tag_key s"
    by blast
  have len: "length (concat ps) = tx_meta_len s * (n div tx_meta_len s)"
    using length_concat_const [OF l(3)] l(2) by simp
  have pos: "tx_meta_len s \<noteq> 0" using assms(1) by (simp add: tx_inv_def)
  have nlt: "\<not> n < tx_meta_len s" using False pos by (simp add: div_eq_0_iff)
  from l len pos False nlt show ?thesis
    by (simp add: tx_general_work_def Let_def tx_inv_def mult.commute)
qed

lemma tx_reachable_inv:
  "tx_reachable lib s \<Longrightarrow>
     tx_inv s \<and> tx_meta_len s dvd nitems_written s \<and>
     (\<forall>t \<in> set (tags s). tx_meta_len s dvd fst t \<and> snd (snd t) = tx_meta_len s)"
proof (induction rule: tx_reachable.induct)
  case (init env fp mlen rep key s)
  then show ?case using tx_init_inv [of lib env fp mlen rep key s] by simp
next
  case (step s env n s' out)
  from step.IH have inv: "tx_inv s" by simp
  from tx_general_work_ok [OF inv step.hyps(2), of lib n] step.hyps(3) step.IH
  show ?case by auto
qed

text \<open>
  C7: on every reachable session and for every request of \<open>n\<close> output items,
  \<^verbatim>\<open>general_work\<close> returns normally and produces exactly
  \<open>packet_size * (n div packet_size)\<close> items (none, with the session unchanged, when
  \<open>n < packet_size\<close>); it adds one tag per produced packet, at the packet's absolute
  offset and with value \<open>packet_size\<close>; the items produced so far are a multiple of
  \<open>packet_size\<close>, and so is the offset of every tag of the session.
\<close>

theorem C7_producer_contract:
  assumes "tx_reachable lib s" and "stat_ok env"
  shows "\<exists>s' out. tx_general_work lib env s n = Inr (s', out) \<and>
           length out = tx_meta_len s * (n div tx_meta_len s) \<and>
           (n < tx_meta_len s \<longrightarrow> s' = s \<and> out = []) \<and>
           tags s' = tags s @ map (\<lambda>i. (nitems_written s + i * tx_meta_len s,
                                         len_tag_key s, tx_meta_len s)) [0..<n div tx_meta_len s] \<and>
           tx_meta_len s dvd nitems_written s \<and>
           nitems_written s' = nitems_written s + length out \<and>
           (\<forall>t \<in> set (tags s'). tx_meta_len s dvd fst t \<and> snd (snd t) = tx_meta_len s)"
proof -
  from tx_reachable_inv [OF assms(1)] have inv: "tx_inv s"
    and d: "tx_meta_len s dvd nitems_written s"
    and t: "\<forall>t \<in> set (tags s). tx_meta_len s dvd fst t \<and> snd (snd t) = tx_meta_len s"
    by simp_all
  from tx_general_work_ok [OF inv assms(2), of lib n] d t show ?thesis by auto
qed

lemma tx_init_ok:
  assumes "16 \<le> mlen" "mlen < 65536" "stat_ok env"
  shows "\<exists>s. tx_init lib env fp mlen rep key = Inr s \<and> tx_meta_len s = nat mlen \<and>
           nitems_written s = 0 \<and> tags s = [] \<and> len_tag_key s = key \<and> phase s = Meta \<and>
           tx_fh s = contents env \<and> file_bytes_left s = get_size env \<and> repeat s = rep \<and>
           filepath s = fp \<and> build_meta lib env fp (nat mlen) = Inr (tx_meta s)"
proof -
  from assms have "nat mlen < 65536" by simp
  from build_meta_ok [OF this assms(3), of lib fp] obtain m where
    "build_meta lib env fp (nat mlen) = Inr m" by blast
  with assms(1) show ?thesis by (simp add: tx_init_def open_file_def Let_def)
qed

definition ten_byte_file :: src_env where
  "ten_byte_file = \<lparr>stat_size = Some 10, contents = Some (ascii ''0123456789'')\<rparr>"

theorem C7_producer_contract_witness:
  "\<exists>s. tx_init posix_lib ten_byte_file ''a.txt'' 512 True ''packet_len'' = Inr s \<and>
       tx_reachable posix_lib s \<and> stat_ok ten_byte_file \<and>
       (\<exists>s' out. tx_general_work posix_lib ten_byte_file s 1300 = Inr (s', out) \<and>
          length out = 1024 \<and>
          tags s' = [(0, ''packet_len'', 512), (512, ''packet_len'', 512)] \<and>
          nitems_written s' = 1024)"
proof -
  have ok: "stat_ok ten_byte_file" by (simp add: stat_ok_def get_size_def ten_byte_file_def)
  from tx_init_ok [OF _ _ ok, of 512 posix_lib "''a.txt''" True "''packet_len''"] obtain s where
    s: "tx_init posix_lib ten_byte_file ''a.txt'' 512 True ''packet_len'' = Inr s"
       "tx_meta_len s = 512" "nitems_written s = 0" "tags s = []" "len_tag_key s = ''packet_len''"
    by auto
  have r: "tx_reachable posix_lib s" using ok s(1) by (rule tx_reachable.init)
  have "[0..<2] = [0, Suc 0]" by (simp add: upt_rec)
  with C7_producer_contract [OF r ok, of 1300] s ok r show ?thesis by auto
qed

section \<open>The source when the file cannot be opened\<close>

text \<open>
  A session of the source on a host whose answers do not change: the constructor, then one
  call of \<^verbatim>\<open>general_work\<close> per request, the outputs joined into the stream.
\<close>

fun tx_run :: "pylib \<Rightarrow> src_env \<Rightarrow> source \<Rightarrow> nat list \<Rightarrow> error + source \<times> bytes" where
  "tx_run lib env s [] = Inr (s, [])"
| "tx_run lib env s (n # ns) =
     (case tx_general_work lib env s n of
        Inl e \<Rightarrow> Inl e
      | Inr (s, out) \<Rightarrow>
          (case tx_run lib env s ns of
             Inl e \<Rightarrow> Inl e
           | Inr (s, outs) \<Rightarrow> Inr (s, out @ outs)))"

definition tx_session ::
  "pylib \<Rightarrow> src_env \<Rightarrow> string \<Rightarrow> int \<Rightarrow> bool \<Rightarrow> string \<Rightarrow> nat list \<Rightarrow> error + source \<times> bytes" where
  "tx_session lib env fp mlen rep key ns =
     (case tx_init lib env fp mlen rep key of Inl e \<Rightarrow> Inl e | Inr s \<Rightarrow> tx_run lib env s ns)"

text \<open>
  Three hosts: a file that is listed with 5 bytes and cannot be opened, an empty file, and
  no file at all.
\<close>

definition unreadable_file :: src_env where
  "unreadable_file = \<lparr>stat_size = Some 5, contents = None\<rparr>"

definition empty_file :: src_env where
  "empty_file = \<lparr>stat_size = Some 0, contents = Some []\<rparr>"

definition missing_file :: src_env where
  "missing_file = \<lparr>stat_size = None, contents = None\<rparr>"

lemma tx_loop_numeral:
  "tx_loop lib env pkt s produced (numeral v) = tx_loop lib env pkt s produced (Suc (pred_numeral v))"
  by (simp add: numeral_eq_Suc)

text \<open>The loop body, case by case.\<close>

lemma tx_packet_Meta:
  assumes "phase s = Meta" "length (tx_meta s) = pkt"
  shows "tx_packet lib env pkt s start =
           Inr (s\<lparr>tags := tags s @ [(nitems_written s + start, len_tag_key s, pkt)],
                   file_bytes_left := get_size env, tx_fh := contents env, phase := File\<rparr>,
                tx_meta s)"
  using assms by (simp add: tx_packet_def open_file_def zeros_overwrite_def Let_def)

lemma tx_packet_unread_None:
  assumes "phase s \<noteq> Meta" "tx_fh s = None"
  shows "tx_packet lib env pkt s start =
           (let s1 = s\<lparr>tags := tags s @ [(nitems_written s + start, len_tag_key s, pkt)]\<rparr> in
            if file_bytes_left s = 0 then
              (if repeat s then
                 (case build_meta lib env (filepath s) (tx_meta_len s) of
                    Inl e \<Rightarrow> Inl e
                  | Inr m \<Rightarrow> Inr (s1\<lparr>tx_meta := m, phase := Meta\<rparr>, replicate pkt 0))
               else Inr (s1\<lparr>phase := Zeros\<rparr>, replicate pkt 0))
            else Inr (s1, replicate pkt 0))"
  using assms
  by (simp add: tx_packet_def zeros_overwrite_def Let_def split: sum.splits)

lemma tx_packet_unread_zero:
  assumes "phase s \<noteq> Meta" "file_bytes_left s = 0"
  shows "tx_packet lib env pkt s start =
           (let s1 = s\<lparr>tags := tags s @ [(nitems_written s + start, len_tag_key s, pkt)]\<rparr> in
              (if repeat s then
                 (case build_meta lib env (filepath s) (tx_meta_len s) of
                    Inl e \<Rightarrow> Inl e
                  | Inr m \<Rightarrow> Inr (s1\<lparr>tx_meta := m, phase := Meta\<rparr>, replicate pkt 0))
               else Inr (s1\<lparr>phase := Zeros\<rparr>, replicate pkt 0)))"
  using assms
  by (simp add: tx_packet_def zeros_overwrite_def Let_def split: sum.splits option.splits)

lemma tx_packet_read:
  assumes "phase s \<noteq> Meta" "tx_fh s = Some rest" "0 < file_bytes_left s"
  shows "tx_packet lib env pkt s start =
           (let b = take (min pkt (file_bytes_left s)) rest;
                s1 = s\<lparr>tags := tags s @ [(nitems_written s + start, len_tag_key s, pkt)],
                       tx_fh := Some (drop (min pkt (file_bytes_left s)) rest),
                       file_bytes_left := file_bytes_left s - length b\<rparr>
            in if file_bytes_left s - length b = 0 then
                 (if repeat s then
                    (case build_meta lib env (filepath s) (tx_meta_len s) of
                       Inl e \<Rightarrow> Inl e
                     | Inr m \<Rightarrow> Inr (s1\<lparr>tx_meta := m, phase := Meta\<rparr>,
                                      b @ replicate (pkt - length b) 0))
                  else Inr (s1\<lparr>phase := Zeros\<rparr>, replicate pkt 0))
               else Inr (s1, if phase s = Zeros then replicate pkt 0
                             else b @ replicate (pkt - length b) 0))"
proof -
  have len: "length (take (min pkt (file_bytes_left s)) rest) \<le> pkt" by simp
  show ?thesis
    using assms len
    by (simp add: tx_packet_def zeros_overwrite_def Let_def split: sum.splits)
qed

text \<open>
  Two runs are compared up to the handle, which is \<^verbatim>\<open>None\<close> after a failed \<^verbatim>\<open>open\<close> and an
  exhausted handle on an empty file.
\<close>

definition forget_handle :: "error + source \<times> bytes \<Rightarrow> error + source \<times> bytes" where
  "forget_handle r = map_sum id (\<lambda>(s, out). (s\<lparr>tx_fh := None\<rparr>, out)) r"

definition unreadable_inv :: "pylib \<Rightarrow> src_env \<Rightarrow> source \<Rightarrow> bool" where
  "unreadable_inv lib env s =
     (tx_inv s \<and> tx_fh s = None \<and>
      build_meta lib env (filepath s) (tx_meta_len s) = Inr (tx_meta s))"

definition header_or_zeros :: "source \<Rightarrow> bytes \<Rightarrow> bool" where
  "header_or_zeros s p = (p = tx_meta s \<or> p = replicate (tx_meta_len s) 0)"

lemma tx_packet_unreadable:
  assumes "unreadable_inv lib env s" "contents env = None"
  shows "\<exists>s' p. tx_packet lib env (tx_meta_len s) s start = Inr (s', p) \<and>
           header_or_zeros s p \<and> unreadable_inv lib env s' \<and>
           tx_meta s' = tx_meta s \<and> tx_meta_len s' = tx_meta_len s"
proof (cases "phase s = Meta")
  case True
  with assms show ?thesis
    by (simp add: tx_packet_Meta unreadable_inv_def tx_inv_def header_or_zeros_def)
next
  case False
  with assms show ?thesis
    by (simp add: tx_packet_unread_None unreadable_inv_def tx_inv_def header_or_zeros_def Let_def)
qed

lemma tx_loop_unreadable:
  assumes "unreadable_inv lib env s" "contents env = None"
  shows "\<exists>s' ps. tx_loop lib env (tx_meta_len s) s produced k = Inr (s', ps) \<and>
           (\<forall>p \<in> set ps. header_or_zeros s p) \<and> unreadable_inv lib env s' \<and>
           tx_meta s' = tx_meta s \<and> tx_meta_len s' = tx_meta_len s"
  using assms(1)
proof (induction k arbitrary: s produced)
  case 0
  then show ?case by simp
next
  case (Suc k)
  from tx_packet_unreadable [OF Suc.prems assms(2), of produced] obtain s1 p where
    p: "tx_packet lib env (tx_meta_len s) s produced = Inr (s1, p)" "header_or_zeros s p"
       "unreadable_inv lib env s1" "tx_meta s1 = tx_meta s" "tx_meta_len s1 = tx_meta_len s"
    by blast
  from Suc.IH [OF p(3), of "produced + tx_meta_len s"] p(5) obtain s2 ps where
    l: "tx_loop lib env (tx_meta_len s) s1 (produced + tx_meta_len s) k = Inr (s2, ps)"
       "\<forall>p \<in> set ps. header_or_zeros s1 p" "unreadable_inv lib env s2"
       "tx_meta s2 = tx_meta s1" "tx_meta_len s2 = tx_meta_len s1"
    by auto
  from p l show ?case by (simp add: header_or_zeros_def)
qed

lemma tx_general_work_unreadable:
  assumes "unreadable_inv lib env s" "contents env = None"
  shows "\<exists>s' ps. tx_general_work lib env s n = Inr (s', concat ps) \<and>
           (\<forall>p \<in> set ps. header_or_zeros s p) \<and> unreadable_inv lib env s' \<and>
           tx_meta s' = tx_meta s \<and> tx_meta_len s' = tx_meta_len s"
proof (cases "n div tx_meta_len s = 0")
  case True
  have "tx_general_work lib env s n = Inr (s, concat [])"
    using True assms(1) by (simp add: tx_general_work_def unreadable_inv_def tx_inv_def)
  with assms(1) show ?thesis by (intro exI [of _ s] exI [of _ "[]"]) simp
next
  case False
  from tx_loop_unreadable [OF assms, of 0 "n div tx_meta_len s"] obtain s1 ps where
    l: "tx_loop lib env (tx_meta_len s) s 0 (n div tx_meta_len s) = Inr (s1, ps)"
       "\<forall>p \<in> set ps. header_or_zeros s p" "unreadable_inv lib env s1"
       "tx_meta s1 = tx_meta s" "tx_meta_len s1 = tx_meta_len s"
    by blast
  have pos: "tx_meta_len s \<noteq> 0" using assms(1) by (simp add: unreadable_inv_def tx_inv_def)
  let ?s' = "s1\<lparr>nitems_written := nitems_written s1 + n div tx_meta_len s * tx_meta_len s\<rparr>"
  have "tx_general_work lib env s n = Inr (?s', concat ps)"
    using l(1) pos False by (simp add: tx_general_work_def Let_def)
  moreover have "unreadable_inv lib env ?s'"
    using l(3) by (simp add: unreadable_inv_def tx_inv_def)
  ultimately show ?thesis using l by (intro exI [of _ ?s'] exI [of _ ps]) simp
qed

lemma tx_run_unreadable:
  assumes "unreadable_inv lib env s" "contents env = None"
  shows "\<exists>s' ps. tx_run lib env s ns = Inr (s', concat ps) \<and>
           (\<forall>p \<in> set ps. header_or_zeros s p)"
  using assms(1)
proof (induction ns arbitrary: s)
  case Nil
  show ?case by (intro exI [of _ s] exI [of _ "[]"]) simp
next
  case (Cons n ns)
  from tx_general_work_unreadable [OF Cons.prems assms(2), of n] obtain s1 ps1 where
    g: "tx_general_work lib env s n = Inr (s1, concat ps1)" "\<forall>p \<in> set ps1. header_or_zeros s p"
       "unreadable_inv lib env s1" "tx_meta s1 = tx_meta s" "tx_meta_len s1 = tx_meta_len s"
    by blast
  from Cons.IH [OF g(3)] obtain s2 ps2 where
    r: "tx_run lib env s1 ns = Inr (s2, concat ps2)" "\<forall>p \<in> set ps2. header_or_zeros s1 p"
    by blast
  have "tx_run lib env s (n # ns) = Inr (s2, concat (ps1 @ ps2))"
    using g(1) r(1) by simp
  moreover have "\<forall>p \<in> set (ps1 @ ps2). header_or_zeros s p"
    using g r(2) by (auto simp: header_or_zeros_def)
  ultimately show ?case by blast
qed

lemma build_meta_get_size:
  "get_size env1 = get_size env2 \<Longrightarrow> build_meta lib env1 fp m = build_meta lib env2 fp m"
  by (simp add: build_meta_def)

definition no_data :: "bytes option \<Rightarrow> bool" where
  "no_data h = (h = None \<or> h = Some [])"

lemma tx_packet_sim:
  assumes inv: "unreadable_inv lib env1 s" and c1: "contents env1 = None"
    and c2: "contents env2 = Some []" and g: "get_size env1 = get_size env2"
    and h: "no_data h"
  shows "\<exists>s' p h'. tx_packet lib env1 (tx_meta_len s) s start = Inr (s', p) \<and>
           tx_packet lib env2 (tx_meta_len s) (s\<lparr>tx_fh := h\<rparr>) start = Inr (s'\<lparr>tx_fh := h'\<rparr>, p) \<and>
           no_data h' \<and> unreadable_inv lib env1 s' \<and> tx_meta_len s' = tx_meta_len s"
proof -
  from inv have m: "build_meta lib env1 (filepath s) (tx_meta_len s) = Inr (tx_meta s)"
    and n: "tx_fh s = None" and l: "length (tx_meta s) = tx_meta_len s"
    by (simp_all add: unreadable_inv_def tx_inv_def)
  from m g have m2: "build_meta lib env2 (filepath s) (tx_meta_len s) = Inr (tx_meta s)"
    by (simp add: build_meta_get_size [of env1 env2])
  consider (meta) "phase s = Meta"
    | (none) "phase s \<noteq> Meta" "h = None"
    | (zero) "phase s \<noteq> Meta" "h = Some []" "file_bytes_left s = 0"
    | (pos) "phase s \<noteq> Meta" "h = Some []" "0 < file_bytes_left s"
    using h by (auto simp: no_data_def)
  then show ?thesis
  proof cases
    case meta
    have "tx_packet lib env1 (tx_meta_len s) s start =
        Inr (s\<lparr>tags := tags s @ [(nitems_written s + start, len_tag_key s, tx_meta_len s)],
               file_bytes_left := get_size env1, tx_fh := None, phase := File\<rparr>, tx_meta s)"
      using meta l c1 by (simp add: tx_packet_Meta)
    moreover have "tx_packet lib env2 (tx_meta_len s) (s\<lparr>tx_fh := h\<rparr>) start =
        Inr (s\<lparr>tags := tags s @ [(nitems_written s + start, len_tag_key s, tx_meta_len s)],
               file_bytes_left := get_size env1, tx_fh := None, phase := File\<rparr>\<lparr>tx_fh := Some []\<rparr>, tx_meta s)"
      using meta l c2 g by (simp add: tx_packet_Meta)
    moreover have "unreadable_inv lib env1
        (s\<lparr>tags := tags s @ [(nitems_written s + start, len_tag_key s, tx_meta_len s)],
           file_bytes_left := get_size env1, tx_fh := None, phase := File\<rparr>)"
      using inv by (simp add: unreadable_inv_def tx_inv_def)
    ultimately show ?thesis by (fastforce simp: no_data_def)
  next
    case none
    from tx_packet_unreadable [OF inv c1, of start] obtain s' p where
      p: "tx_packet lib env1 (tx_meta_len s) s start = Inr (s', p)" "unreadable_inv lib env1 s'"
         "tx_meta_len s' = tx_meta_len s"
      by blast
    have same: "s\<lparr>tx_fh := None\<rparr> = s" using n by simp
    have fh': "tx_fh s' = None" using p(2) by (simp add: unreadable_inv_def)
    have eq: "tx_packet lib env2 (tx_meta_len s) s start = tx_packet lib env1 (tx_meta_len s) s start"
      using none(1) n m m2 by (simp add: tx_packet_unread_None Let_def)
    have "s'\<lparr>tx_fh := None\<rparr> = s'" using fh' by simp
    with p eq none(2) same show ?thesis
      by (intro exI [of _ s'] exI [of _ p] exI [of _ None]) (simp add: no_data_def)
  next
    case zero
    let ?s1 = "s\<lparr>tags := tags s @ [(nitems_written s + start, len_tag_key s, tx_meta_len s)]\<rparr>"
    let ?s' = "if repeat s then ?s1\<lparr>tx_meta := tx_meta s, phase := Meta\<rparr> else ?s1\<lparr>phase := Zeros\<rparr>"
    have a: "tx_packet lib env1 (tx_meta_len s) s start = Inr (?s', replicate (tx_meta_len s) 0)"
      using zero(1,3) m by (simp add: tx_packet_unread_zero Let_def)
    have b: "tx_packet lib env2 (tx_meta_len s) (s\<lparr>tx_fh := h\<rparr>) start =
               Inr (?s'\<lparr>tx_fh := h\<rparr>, replicate (tx_meta_len s) 0)"
      using zero(1,3) m2 by (simp add: tx_packet_unread_zero Let_def)
    have c: "unreadable_inv lib env1 ?s'"
      using inv by (simp add: unreadable_inv_def tx_inv_def)
    have d: "tx_meta_len ?s' = tx_meta_len s" by simp
    from a b c d h show ?thesis by blast
  next
    case pos
    let ?s' = "s\<lparr>tags := tags s @ [(nitems_written s + start, len_tag_key s, tx_meta_len s)]\<rparr>"
    have a: "tx_packet lib env1 (tx_meta_len s) s start = Inr (?s', replicate (tx_meta_len s) 0)"
      using pos(1,3) n by (simp add: tx_packet_unread_None Let_def)
    have b: "tx_packet lib env2 (tx_meta_len s) (s\<lparr>tx_fh := h\<rparr>) start =
               Inr (?s'\<lparr>tx_fh := h\<rparr>, replicate (tx_meta_len s) 0)"
      using pos by (simp add: tx_packet_read [where rest = "[]"] Let_def)
    have c: "unreadable_inv lib env1 ?s'"
      using inv by (simp add: unreadable_inv_def tx_inv_def)
    have d: "tx_meta_len ?s' = tx_meta_len s" by simp
    from a b c d h show ?thesis by blast
  qed
qed

lemma tx_loop_sim:
  assumes c1: "contents env1 = None" and c2: "contents env2 = Some []"
    and g: "get_size env1 = get_size env2"
  shows "unreadable_inv lib env1 s \<Longrightarrow> no_data h \<Longrightarrow>
         \<exists>s' ps h'. tx_loop lib env1 (tx_meta_len s) s produced k = Inr (s', ps) \<and>
           tx_loop lib env2 (tx_meta_len s) (s\<lparr>tx_fh := h\<rparr>) produced k = Inr (s'\<lparr>tx_fh := h'\<rparr>, ps) \<and>
           no_data h' \<and> unreadable_inv lib env1 s' \<and> tx_meta_len s' = tx_meta_len s"
proof (induction k arbitrary: s h produced)
  case 0
  then show ?case by (intro exI [of _ s] exI [of _ "[]"] exI [of _ h]) simp
next
  case (Suc k)
  from tx_packet_sim [OF Suc.prems(1) c1 c2 g Suc.prems(2), of start for start, of produced]
  obtain s1 p h1 where
    p: "tx_packet lib env1 (tx_meta_len s) s produced = Inr (s1, p)"
       "tx_packet lib env2 (tx_meta_len s) (s\<lparr>tx_fh := h\<rparr>) produced = Inr (s1\<lparr>tx_fh := h1\<rparr>, p)"
       "no_data h1" "unreadable_inv lib env1 s1" "tx_meta_len s1 = tx_meta_len s"
    by blast
  from Suc.IH [OF p(4) p(3), of "produced + tx_meta_len s"] p(5) obtain s2 ps h2 where
    l: "tx_loop lib env1 (tx_meta_len s) s1 (produced + tx_meta_len s) k = Inr (s2, ps)"
       "tx_loop lib env2 (tx_meta_len s) (s1\<lparr>tx_fh := h1\<rparr>) (produced + tx_meta_len s) k
          = Inr (s2\<lparr>tx_fh := h2\<rparr>, ps)"
       "no_data h2" "unreadable_inv lib env1 s2" "tx_meta_len s2 = tx_meta_len s"
    by auto
  from p l show ?case
    by (intro exI [of _ s2] exI [of _ "p # ps"] exI [of _ h2]) simp
qed

lemma tx_general_work_sim:
  assumes c1: "contents env1 = None" and c2: "contents env2 = Some []"
    and g: "get_size env1 = get_size env2"
    and inv: "unreadable_inv lib env1 s" and h: "no_data h"
  shows "\<exists>s' out h'. tx_general_work lib env1 s n = Inr (s', out) \<and>
           tx_general_work lib env2 (s\<lparr>tx_fh := h\<rparr>) n = Inr (s'\<lparr>tx_fh := h'\<rparr>, out) \<and>
           no_data h' \<and> unreadable_inv lib env1 s'"
proof (cases "n div tx_meta_len s = 0")
  case True
  have pos: "tx_meta_len s \<noteq> 0" using inv by (simp add: unreadable_inv_def tx_inv_def)
  from True pos have "tx_general_work lib env1 s n = Inr (s, [])"
    "tx_general_work lib env2 (s\<lparr>tx_fh := h\<rparr>) n = Inr (s\<lparr>tx_fh := h\<rparr>, [])"
    by (simp_all add: tx_general_work_def)
  with inv h show ?thesis by blast
next
  case False
  have pos: "tx_meta_len s \<noteq> 0" using inv by (simp add: unreadable_inv_def tx_inv_def)
  from tx_loop_sim [OF c1 c2 g inv h, of 0 "n div tx_meta_len s"] obtain s1 ps h1 where
    l: "tx_loop lib env1 (tx_meta_len s) s 0 (n div tx_meta_len s) = Inr (s1, ps)"
       "tx_loop lib env2 (tx_meta_len s) (s\<lparr>tx_fh := h\<rparr>) 0 (n div tx_meta_len s)
          = Inr (s1\<lparr>tx_fh := h1\<rparr>, ps)"
       "no_data h1" "unreadable_inv lib env1 s1"
    by blast
  let ?s' = "s1\<lparr>nitems_written := nitems_written s1 + n div tx_meta_len s * tx_meta_len s\<rparr>"
  have a: "tx_general_work lib env1 s n = Inr (?s', concat ps)"
    using l(1) pos False by (simp add: tx_general_work_def Let_def)
  have b: "tx_general_work lib env2 (s\<lparr>tx_fh := h\<rparr>) n = Inr (?s'\<lparr>tx_fh := h1\<rparr>, concat ps)"
    using l(2) pos False by (simp add: tx_general_work_def Let_def)
  have c: "unreadable_inv lib env1 ?s'"
    using l(4) by (simp add: unreadable_inv_def tx_inv_def)
  from a b c l(3) show ?thesis by blast
qed

lemma tx_run_sim:
  assumes c1: "contents env1 = None" and c2: "contents env2 = Some []"
    and g: "get_size env1 = get_size env2"
  shows "unreadable_inv lib env1 s \<Longrightarrow> no_data h \<Longrightarrow>
         \<exists>s' out h'. tx_run lib env1 s ns = Inr (s', out) \<and>
           tx_run lib env2 (s\<lparr>tx_fh := h\<rparr>) ns = Inr (s'\<lparr>tx_fh := h'\<rparr>, out)"
proof (induction ns arbitrary: s h)
  case Nil
  show ?case by (intro exI [of _ s] exI [of _ "[]"] exI [of _ h]) simp
next
  case (Cons n ns)
  from tx_general_work_sim [OF c1 c2 g Cons.prems, of n] obtain s1 out1 h1 where
    w: "tx_general_work lib env1 s n = Inr (s1, out1)"
       "tx_general_work lib env2 (s\<lparr>tx_fh := h\<rparr>) n = Inr (s1\<lparr>tx_fh := h1\<rparr>, out1)"
       "no_data h1" "unreadable_inv lib env1 s1"
    by blast
  from Cons.IH [OF w(4) w(3)] obtain s2 out2 h2 where
    r: "tx_run lib env1 s1 ns = Inr (s2, out2)"
       "tx_run lib env2 (s1\<lparr>tx_fh := h1\<rparr>) ns = Inr (s2\<lparr>tx_fh := h2\<rparr>, out2)"
    by blast
  from w r show ?case
    by (intro exI [of _ s2] exI [of _ "out1 @ out2"] exI [of _ h2]) simp
qed

lemma tx_init_unreadable:
  assumes "contents env = None" "stat_ok env" "16 \<le> mlen" "mlen < 65536"
  shows "\<exists>s0. tx_init lib env fp mlen rep key = Inr s0 \<and> unreadable_inv lib env s0 \<and>
           tx_meta_len s0 = nat mlen"
proof -
  from tx_init_ok [OF assms(3,4,2), of lib fp rep key] obtain s0 where
    s0: "tx_init lib env fp mlen rep key = Inr s0" "tx_meta_len s0 = nat mlen"
        "tx_fh s0 = contents env" "filepath s0 = fp"
        "build_meta lib env fp (nat mlen) = Inr (tx_meta s0)"
    by blast
  from tx_init_inv [OF s0(1)] have "tx_inv s0" by simp
  with s0 assms(1) show ?thesis by (simp add: unreadable_inv_def)
qed

text \<open>
  C9 (amended): when \<^verbatim>\<open>open\<close> fails, the constructor and every call of \<^verbatim>\<open>general_work\<close>
  return normally, and every packet of the stream is either the header or all zeros; when
  moreover the size query fails or reports 0, the session and its output are those of a
  zero-length file (up to the handle).
\<close>

theorem C9_open_failure:
  assumes "contents env = None" and "stat_ok env" and "16 \<le> mlen" and "mlen < 65536"
  shows "\<exists>s0 s' ps.
           tx_init lib env fp mlen rep key = Inr s0 \<and>
           tx_run lib env s0 ns = Inr (s', concat ps) \<and>
           (\<forall>p \<in> set ps. p = tx_meta s0 \<or> p = replicate (nat mlen) 0) \<and>
           (get_size env = 0 \<longrightarrow>
              forget_handle (tx_session lib env fp mlen rep key ns) =
              forget_handle (tx_session lib empty_file fp mlen rep key ns))"
proof -
  from tx_init_unreadable [OF assms, of lib fp rep key] obtain s0 where
    s0: "tx_init lib env fp mlen rep key = Inr s0" "unreadable_inv lib env s0"
        "tx_meta_len s0 = nat mlen"
    by blast
  from tx_run_unreadable [OF s0(2) assms(1), of ns] obtain s' ps where
    r: "tx_run lib env s0 ns = Inr (s', concat ps)" "\<forall>p \<in> set ps. header_or_zeros s0 p"
    by blast
  have sim: "forget_handle (tx_session lib env fp mlen rep key ns) =
             forget_handle (tx_session lib empty_file fp mlen rep key ns)"
    if z: "get_size env = 0"
  proof -
    have c2: "contents empty_file = Some []" by (simp add: empty_file_def)
    have g: "get_size env = get_size empty_file" using z by (simp add: empty_file_def get_size_def)
    have i2: "tx_init lib empty_file fp mlen rep key = Inr (s0\<lparr>tx_fh := Some []\<rparr>)"
      using s0(1) assms(1) build_meta_get_size [OF g, of lib fp "nat mlen"] g
      by (auto simp: tx_init_def open_file_def Let_def c2 split: if_splits sum.splits)
    from tx_run_sim [OF assms(1) c2 g s0(2), of "Some []" ns] obtain s1 out h1 where
      "tx_run lib env s0 ns = Inr (s1, out)"
      "tx_run lib empty_file (s0\<lparr>tx_fh := Some []\<rparr>) ns = Inr (s1\<lparr>tx_fh := h1\<rparr>, out)"
      by (auto simp: no_data_def)
    with s0(1) i2 show ?thesis by (simp add: tx_session_def forget_handle_def)
  qed
  from s0 r sim show ?thesis by (auto simp: header_or_zeros_def)
qed

theorem C9_open_failure_witness:
  "contents missing_file = None \<and> stat_ok missing_file \<and> get_size missing_file = 0 \<and>
   forget_handle (tx_session posix_lib missing_file ''a.txt'' 32 True ''packet_len'' [64]) =
   forget_handle (tx_session posix_lib empty_file ''a.txt'' 32 True ''packet_len'' [64])"
proof -
  have a: "contents missing_file = None" and b: "stat_ok missing_file"
    and c: "get_size missing_file = 0"
    by (simp_all add: missing_file_def stat_ok_def get_size_def)
  from C9_open_failure [OF a b, of 32 posix_lib "''a.txt''" True "''packet_len''" "[64]"] a b c
  show ?thesis by auto
qed

text \<open>
  C9, as stated, fails: for the file that is listed with 5 bytes and cannot be opened, the
  session is still in the \<^verbatim>\<open>file\<close> phase after the header and one data packet
  (\<^verbatim>\<open>_file_bytes_left\<close> stays 5), where the session of a zero-length file is back in the
  \<^verbatim>\<open>meta\<close> phase.
\<close>

theorem C9_counterexample:
  "contents unreadable_file = None \<and>
   map_sum id (\<lambda>r. phase (fst r))
     (tx_session posix_lib unreadable_file ''a.txt'' 32 True ''packet_len'' [64]) = Inr File \<and>
   map_sum id (\<lambda>r. phase (fst r))
     (tx_session posix_lib empty_file ''a.txt'' 32 True ''packet_len'' [64]) = Inr Meta"
  by (simp add: tx_session_def tx_init_def build_meta_def pack_le_def get_size_def
       unreadable_file_def empty_file_def posix_lib_def posix_basename_def ascii_encode_def
       ascii_def open_file_def tx_general_work_def tx_loop_numeral tx_packet_Meta
       tx_packet_unread_None tx_packet_unread_zero Let_def)

section \<open>The scan for a header\<close>






lemma try_parse_fail: "\<not> header_valid (buf s) i \<Longrightarrow> try_parse_meta_at lib s i = (False, s)"
  using try_parse_cases [of lib s i] try_parse_iff [of lib s i] by simp







text \<open>
  A buffer of 33 bytes: at offset 0 a candidate that declares \<open>meta_len = 64\<close> (more than the
  buffer holds), at offset 16 a complete header with \<open>meta_len = 16\<close>, no name and
  \<open>file_size = 1\<close>, then the one payload byte.
\<close>

definition two_candidates :: bytes where
  "two_candidates =
     ascii ''FILE'' @ [1, 64, 0, 0] @ [1, 0, 0, 0, 0, 0, 0, 0] @
     ascii ''FILE'' @ [1, 16, 0, 0] @ [1, 0, 0, 0, 0, 0, 0, 0] @
     ascii ''X''"


lemma two_candidates_find0: "find_sub magic two_candidates 0 = Some 0"
  by (simp add: find_sub.simps two_candidates_def magic_bytes ascii_def)









section \<open>The session of the reassembler\<close>

text \<open>
  The name a valid header gives the file, the final path \<^verbatim>\<open>_open_out\<close> chooses, and the session
  after the \<^verbatim>\<open>SCAN\<close> branch has accepted the header at \<open>idx\<close>; \<open>scan_accept_eq\<close> shows that
  this is what the code computes.
\<close>

definition parsed_name :: "pylib \<Rightarrow> bytes \<Rightarrow> nat \<Rightarrow> string" where
  "parsed_name lib b idx =
     (let name = strip_nul (utf8_decode lib (py_slice (idx + 16) (idx + 16 + hdr_name_len b idx) b))
      in if name = [] then ''recv.bin'' else name)"

lemma try_parse_success:
  assumes "header_valid (buf s) idx"
  shows "try_parse_meta_at lib s idx =
           (True, s\<lparr>meta_len := Some (hdr_meta_len (buf s) idx),
                     file_size := Some (hdr_file_size (buf s) idx),
                     file_name := Some (parsed_name lib (buf s) idx)\<rparr>)"
proof -
  have "unat (buf s ! (idx + 7)) \<le> 255"
    using unsigned_less [of "buf s ! (idx + 7)", where ?'a = nat] by simp
  with assms show ?thesis
    by (simp add: try_parse_meta_at_def header_valid_def spec_header_checks_def hdr_meta_len_def
        hdr_name_len_def hdr_file_size_def parsed_name_def Let_def)
qed

definition out_final :: "pylib \<Rightarrow> string \<Rightarrow> bool \<Rightarrow> disk \<Rightarrow> string option \<Rightarrow> string" where
  "out_final lib od ovw d name =
     (let safe = (case name of None \<Rightarrow> ''recv.bin''
                  | Some n \<Rightarrow> if n \<noteq> [] then basename lib n else ''recv.bin'');
          final = path_join lib od safe
      in if \<not> ovw \<and> path_exists d final
         then (case splitext lib final of
                 (base, ext) \<Rightarrow> suffixed base (free_suffix d base ext 1) ext)
         else final)"

lemma open_out_eq:
  "open_out lib s name expect =
     s\<lparr>final_path := Some (out_final lib (out_dir s) (overwrite s) (disk s) name),
       part_path := Some (out_final lib (out_dir s) (overwrite s) (disk s) name @ ''.part''),
       fh := Some (out_final lib (out_dir s) (overwrite s) (disk s) name @ ''.part''),
       disk := fmupd (out_final lib (out_dir s) (overwrite s) (disk s) name @ ''.part'') [] (disk s),
       written := 0\<rparr>"
  by (simp add: open_out_def out_final_def close_fh_def Let_def)

definition accepted :: "pylib \<Rightarrow> reasm \<Rightarrow> nat \<Rightarrow> reasm" where
  "accepted lib s idx =
     (let final = out_final lib (out_dir s) (overwrite s) (disk s)
                    (Some (parsed_name lib (buf s) idx))
      in s\<lparr>meta_len := Some (hdr_meta_len (buf s) idx),
           file_size := Some (hdr_file_size (buf s) idx),
           file_name := Some (parsed_name lib (buf s) idx),
           buf := drop (hdr_meta_len (buf s) idx) (drop idx (buf s)),
           final_path := Some final,
           part_path := Some (final @ ''.part''),
           fh := Some (final @ ''.part''),
           disk := fmupd (final @ ''.part'') [] (disk s),
           written := 0,
           state := RECV\<rparr>)"

lemma scan_accept_eq:
  assumes "header_valid (buf s) idx"
  shows "scan_accept lib (snd (try_parse_meta_at lib s idx)) idx = accepted lib s idx"
proof (cases "idx > 0")
  case True
  then show ?thesis
    unfolding try_parse_success [OF assms] scan_accept_def open_out_eq accepted_def Let_def
    by simp
next
  case False
  then show ?thesis
    unfolding try_parse_success [OF assms] scan_accept_def open_out_eq accepted_def Let_def
    by simp
qed

lemma scan_loop_cases:
  "scan_loop lib s start = s \<or>
   (\<exists>k. header_valid (buf s) k \<and> scan_loop lib s start = accepted lib s k)"
proof (induction lib s start rule: scan_loop.induct)
  case (1 lib s start)
  show ?case
  proof (cases "find_sub magic (buf s) start")
    case None
    then show ?thesis by (simp add: scan_loop.simps [of lib s start])
  next
    case (Some idx)
    show ?thesis
    proof (cases "header_valid (buf s) idx")
      case True
      then have "scan_loop lib s start = accepted lib s idx"
        using Some by (simp add: scan_loop.simps [of lib s start] try_parse_iff scan_accept_eq)
      with True show ?thesis by blast
    next
      case False
      then have f: "try_parse_meta_at lib s idx = (False, s)" by (rule try_parse_fail)
      have "scan_loop lib s start = scan_loop lib s (idx + 1)"
        using Some f by (simp add: scan_loop.simps [of lib s start])
      with "1.IH" [OF Some] f show ?thesis by simp
    qed
  qed
qed

text \<open>The files of the session, against the disk \<open>d0\<close> it started on.\<close>

definition rx_inv :: "disk \<Rightarrow> reasm \<Rightarrow> bool" where
  "rx_inv d0 s =
     ((state s = SCAN \<longrightarrow> \<not> done_flag s \<and> disk s = d0 \<and> final_path s = None) \<and>
      (state s = RECV \<longrightarrow> \<not> done_flag s \<and>
         (\<exists>f fsz c. final_path s = Some f \<and> part_path s = Some (f @ ''.part'') \<and>
            (fh s = None \<or> fh s = Some (f @ ''.part'')) \<and>
            file_size s = Some fsz \<and> written s < fsz \<and>
            fmlookup (disk s) (f @ ''.part'') = Some c \<and> length c = written s \<and>
            fmlookup (disk s) f = fmlookup d0 f)) \<and>
      (state s = DONE \<longrightarrow> done_flag s \<and>
         (\<exists>f c. final_path s = Some f \<and> file_size s = Some (length c) \<and>
            written s = length c \<and> fmlookup (disk s) f = Some c)))"

lemma rx_inv_buf [simp]: "rx_inv d0 (s\<lparr>buf := b\<rparr>) = rx_inv d0 s"
  by (simp add: rx_inv_def)

lemma part_neq: "f @ ''.part'' \<noteq> f"
  by (metis append_self_conv list.distinct(1))

lemma accepted_inv:
  assumes "rx_inv d0 s" "state s = SCAN" "header_valid (buf s) k"
  shows "rx_inv d0 (accepted lib s k)"
proof -
  from assms(3) have "0 < hdr_file_size (buf s) k"
    by (simp add: header_valid_def spec_header_checks_def)
  with assms(1,2) show ?thesis
    by (simp add: rx_inv_def accepted_def Let_def part_neq)
qed

lemma accepted_buf: "length (buf (accepted lib s k)) \<le> length (buf s)"
  by (simp add: accepted_def Let_def)

lemma accepted_max_buffer: "max_buffer (accepted lib s k) = max_buffer s"
  by (simp add: accepted_def Let_def)

lemma scan_loop_inv:
  assumes "rx_inv d0 s" "state s = SCAN"
  shows "rx_inv d0 (scan_loop lib s start) \<and>
         length (buf (scan_loop lib s start)) \<le> length (buf s) \<and>
         max_buffer (scan_loop lib s start) = max_buffer s"
  using scan_loop_cases [of lib s start] assms
  by (auto simp: accepted_inv accepted_buf accepted_max_buffer)

lemma recv_step_idle: "\<not> (state s = RECV \<and> fh s \<noteq> None) \<Longrightarrow> recv_step s = Inr s"
  by (auto simp: recv_step_def)

lemma recv_step_empty:
  assumes "state s = RECV" "fh s = Some part" "file_size s = Some fsz" "written s < fsz" "buf s = []"
  shows "recv_step s = Inr s"
  using assms by (simp add: recv_step_def Let_def)

lemma renamed_disk:
  "part \<noteq> f \<Longrightarrow> fmupd f X (fmdrop part (fmdrop f (fmupd part X D))) = fmupd f X (fmdrop part D)"
  "fmupd f X (fmdrop part (fmupd part X D)) = fmupd f X (fmdrop part D)"
  by (intro fmap_ext; simp)+

lemma recv_step_partial:
  assumes "state s = RECV" "fh s = Some part" "file_size s = Some fsz"
    "written s + length (buf s) < fsz" "buf s \<noteq> []" "fmlookup (disk s) part = Some c"
  shows "recv_step s =
           Inr (s\<lparr>disk := fmupd part (c @ buf s) (disk s),
                  written := written s + length (buf s), buf := []\<rparr>)"
proof -
  have "min (fsz - written s) (length (buf s)) = length (buf s)" using assms(4) by simp
  with assms show ?thesis by (simp add: recv_step_def Let_def)
qed

lemma recv_step_complete:
  assumes "state s = RECV" "fh s = Some part" "file_size s = Some fsz"
    "written s < fsz" "fsz \<le> written s + length (buf s)" "fmlookup (disk s) part = Some c"
    "part_path s = Some part" "final_path s = Some f" "part \<noteq> f"
  shows "recv_step s =
           Inr (s\<lparr>disk := fmupd f (c @ take (fsz - written s) (buf s)) (fmdrop part (disk s)),
                  written := fsz, buf := drop (fsz - written s) (buf s),
                  fh := None, done_flag := True, state := DONE\<rparr>)"
proof -
  have m: "min (fsz - written s) (length (buf s)) = fsz - written s" using assms(4,5) by simp
  have ne: "buf s \<noteq> []" using assms(4,5) by auto
  let ?X = "c @ take (fsz - written s) (buf s)"
  let ?s1 = "s\<lparr>disk := fmupd part ?X (disk s), written := written s + (fsz - written s),
               buf := drop (fsz - written s) (buf s)\<rparr>"
  have w: "written s + (fsz - written s) = fsz" using assms(4) by simp
  have fin: "finish ?s1 = Inr (?s1\<lparr>fh := None,
               disk := fmupd f ?X (fmdrop part (disk s))\<rparr>)"
    using assms(7,8,9)
    by (simp add: finish_def close_fh_def Let_def path_exists_def renamed_disk)
  have "recv_step s = (case finish ?s1 of Inl e \<Rightarrow> Inl e
                       | Inr s' \<Rightarrow> Inr (s'\<lparr>done_flag := True, state := DONE\<rparr>))"
    using assms(1-4) assms(6) m ne w by (simp add: recv_step_def Let_def)
  then show ?thesis unfolding fin by (simp add: w)
qed

lemma recv_step_inv:
  assumes "rx_inv d0 s"
  shows "\<exists>s'. recv_step s = Inr s' \<and> rx_inv d0 s' \<and> length (buf s') \<le> length (buf s) \<and>
           max_buffer s' = max_buffer s"
proof (cases "state s = RECV \<and> fh s \<noteq> None")
  case False
  with assms show ?thesis by (simp add: recv_step_idle)
next
  case True
  with assms obtain f fsz c where
    r: "state s = RECV" "\<not> done_flag s" "final_path s = Some f" "part_path s = Some (f @ ''.part'')"
       "fh s = Some (f @ ''.part'')" "file_size s = Some fsz" "written s < fsz"
       "fmlookup (disk s) (f @ ''.part'') = Some c" "length c = written s"
       "fmlookup (disk s) f = fmlookup d0 f"
    by (auto simp: rx_inv_def)
  consider (empty) "buf s = []"
    | (partial) "buf s \<noteq> []" "written s + length (buf s) < fsz"
    | (complete) "fsz \<le> written s + length (buf s)"
    by linarith
  then show ?thesis
  proof cases
    case empty
    with assms r show ?thesis by (simp add: recv_step_empty [OF r(1,5,6,7)])
  next
    case partial
    let ?s' = "s\<lparr>disk := fmupd (f @ ''.part'') (c @ buf s) (disk s),
                 written := written s + length (buf s), buf := []\<rparr>"
    have "recv_step s = Inr ?s'"
      by (rule recv_step_partial [OF r(1,5,6) partial(2,1) r(8)])
    moreover have "rx_inv d0 ?s'"
      using r partial by (simp add: rx_inv_def part_neq [symmetric])
    ultimately show ?thesis by simp
  next
    case complete
    let ?s' = "s\<lparr>disk := fmupd f (c @ take (fsz - written s) (buf s)) (fmdrop (f @ ''.part'') (disk s)),
                 written := fsz, buf := drop (fsz - written s) (buf s),
                 fh := None, done_flag := True, state := DONE\<rparr>"
    have "recv_step s = Inr ?s'"
      by (rule recv_step_complete [OF r(1,5,6,7) complete r(8) r(4) r(3) part_neq])
    moreover have "rx_inv d0 ?s'"
      using r complete by (simp add: rx_inv_def)
    ultimately show ?thesis by simp
  qed
qed

text \<open>The buffer holds at most the larger of \<^verbatim>\<open>max_buffer\<close> and the 1 MiB kept on overflow.\<close>

definition buf_bounded :: "reasm \<Rightarrow> bool" where
  "buf_bounded s = (int (length (buf s)) \<le> max (max_buffer s) (1024 * 1024))"

text \<open>The first statements of \<^verbatim>\<open>general_work\<close>: append, and keep the last 1 MiB on overflow.\<close>

definition buffered :: "reasm \<Rightarrow> bytes \<Rightarrow> reasm" where
  "buffered s inp =
     (if int (length (buf s @ inp)) > max_buffer s
      then s\<lparr>buf := drop (length (buf s @ inp) - 1024 * 1024) (buf s @ inp)\<rparr>
      else s\<lparr>buf := buf s @ inp\<rparr>)"

lemma rx_general_work_eq:
  "\<not> done_flag s \<Longrightarrow>
   rx_general_work lib s inp =
     recv_step (if state s = SCAN then scan_loop lib (buffered s inp) 0 else buffered s inp)"
  by (simp add: rx_general_work_def buffered_def Let_def)

lemma buffered_fields [simp]:
  "state (buffered s inp) = state s" "disk (buffered s inp) = disk s"
  "final_path (buffered s inp) = final_path s" "max_buffer (buffered s inp) = max_buffer s"
  "rx_inv d0 (buffered s inp) = rx_inv d0 s"
  by (simp_all add: buffered_def)

lemma buffered_bounded: "buf_bounded (buffered s inp)"
  by (auto simp: buffered_def buf_bounded_def)

lemma rx_general_work_inv:
  assumes "rx_inv d0 s" "buf_bounded s"
  shows "\<exists>s'. rx_general_work lib s inp = Inr s' \<and> rx_inv d0 s' \<and> buf_bounded s' \<and>
           max_buffer s' = max_buffer s"
proof (cases "done_flag s")
  case True
  with assms show ?thesis by (simp add: rx_general_work_def)
next
  case False
  define s3 where "s3 = (if state s = SCAN then scan_loop lib (buffered s inp) 0 else buffered s inp)"
  have w: "rx_general_work lib s inp = recv_step s3"
    using False by (simp add: rx_general_work_eq s3_def)
  have i2: "rx_inv d0 (buffered s inp)" using assms(1) by simp
  have b2: "buf_bounded (buffered s inp)" by (rule buffered_bounded)
  have i3: "rx_inv d0 s3 \<and> length (buf s3) \<le> length (buf (buffered s inp)) \<and>
            max_buffer s3 = max_buffer s"
    using scan_loop_inv [OF i2, of lib 0] i2 by (simp add: s3_def)
  from recv_step_inv [of d0 s3] i3 obtain s' where
    s': "recv_step s3 = Inr s'" "rx_inv d0 s'" "length (buf s') \<le> length (buf s3)"
        "max_buffer s' = max_buffer s3"
    by blast
  have "buf_bounded s'" using b2 i3 s'(3,4) by (simp add: buf_bounded_def)
  with w s' i3 show ?thesis by simp
qed

text \<open>
  The sessions reachable from \<open>s0\<close>: by a call of \<^verbatim>\<open>general_work\<close> that returns, on any input,
  or by \<^verbatim>\<open>stop\<close>.
\<close>

inductive rx_reachable :: "pylib \<Rightarrow> reasm \<Rightarrow> reasm \<Rightarrow> bool" for lib :: pylib and s0 :: reasm where
  start: "rx_reachable lib s0 s0"
| work: "rx_reachable lib s0 s \<Longrightarrow> rx_general_work lib s inp = Inr s' \<Longrightarrow> rx_reachable lib s0 s'"
| stopped: "rx_reachable lib s0 s \<Longrightarrow> rx_reachable lib s0 (stop s)"

lemma rx_init_inv: "rx_inv d0 (rx_init od dbg ovw mb d0) \<and> buf_bounded (rx_init od dbg ovw mb d0)"
  by (simp add: rx_inv_def rx_init_def buf_bounded_def)

lemma stop_inv: "rx_inv d0 s \<Longrightarrow> rx_inv d0 (stop s)"
  by (auto simp: rx_inv_def stop_def close_fh_def)

lemma rx_reachable_inv:
  assumes "rx_reachable lib (rx_init od dbg ovw mb d0) s"
  shows "rx_inv d0 s \<and> buf_bounded s \<and> max_buffer s = mb"
  using assms
proof (induction rule: rx_reachable.induct)
  case start
  show ?case using rx_init_inv [of d0 od dbg ovw mb] by (simp add: rx_init_def)
next
  case (work s inp s')
  with rx_general_work_inv [of d0 s lib inp] show ?case by auto
next
  case (stopped s)
  then have "rx_inv d0 (stop s)" by (simp add: stop_inv)
  moreover have "buf (stop s) = buf s" "max_buffer (stop s) = max_buffer s"
    by (simp_all add: stop_def close_fh_def)
  ultimately show ?case using stopped.IH by (auto simp: buf_bounded_def)
qed



text \<open>
  C8 (amended): in every session reachable from a fresh reassembler, whatever was delivered,
  the buffer is no longer than the larger of \<^verbatim>\<open>max_buffer\<close> and 1 MiB; so it is no longer
  than \<^verbatim>\<open>max_buffer\<close> for every \<^verbatim>\<open>max_buffer\<close> of at least 1 MiB.
\<close>

theorem C8_buffer_bound:
  assumes "rx_reachable lib (rx_init od dbg ovw mb d0) s"
  shows "int (length (buf s)) \<le> max mb (1024 * 1024) \<and>
         (1024 * 1024 \<le> mb \<longrightarrow> int (length (buf s)) \<le> mb)"
  using rx_reachable_inv [OF assms] by (auto simp: buf_bounded_def)


text \<open>
  C8, as stated (for every \<^verbatim>\<open>max_buffer\<close>), fails: with \<^verbatim>\<open>max_buffer = 1\<close>, two bytes that hold
  no header leave a buffer of two bytes, since the overflow keeps the last 1 MiB.
\<close>

theorem C8_counterexample:
  "map_sum id (\<lambda>s. (state s, int (length (buf s)) \<le> max_buffer s))
     (rx_general_work posix_lib (rx_init ''out'' True True 1 fmempty) [0, 0]) = Inr (SCAN, False)"
  by (simp add: rx_general_work_def rx_init_def scan_loop.simps find_sub.simps magic_bytes
      recv_step_def Let_def)

theorem C8_buffer_bound_witness:
  "\<exists>s. rx_general_work posix_lib (rx_init ''out'' True True 1 fmempty) [0, 0] = Inr s \<and>
       rx_reachable posix_lib (rx_init ''out'' True True 1 fmempty) s \<and>
       int (length (buf s)) \<le> max 1 (1024 * 1024)"
proof -
  let ?s0 = "rx_init ''out'' True True 1 fmempty"
  from rx_general_work_inv [of fmempty ?s0 posix_lib "[0, 0]"] rx_init_inv [of fmempty "''out''" True True 1]
  obtain s where s: "rx_general_work posix_lib ?s0 [0, 0] = Inr s" by blast
  have r: "rx_reachable posix_lib ?s0 s"
    by (rule rx_reachable.work [OF rx_reachable.start s])
  from C8_buffer_bound [OF r] s r show ?thesis by blast
qed

section \<open>Reassembling a delivered stream\<close>

text \<open>Validation at an offset reads the buffer only up to the end of the header.\<close>

lemma hdr_fields_append:
  assumes "i + 16 \<le> length b"
  shows "hdr_meta_len (b @ x) i = hdr_meta_len b i"
    and "hdr_name_len (b @ x) i = hdr_name_len b i"
    and "hdr_file_size (b @ x) i = hdr_file_size b i"
    and "py_slice i (i + 4) (b @ x) = py_slice i (i + 4) b"
    and "(b @ x) ! (i + 4) = b ! (i + 4)"
  using assms
  by (simp_all add: hdr_meta_len_def hdr_name_len_def hdr_file_size_def py_slice_def nth_append)


lemma valid_prefix:
  assumes "header_valid (b @ x) i" "i + hdr_meta_len (b @ x) i \<le> length b"
  shows "header_valid b i"
proof -
  from assms have "i + 16 \<le> length b" by (simp add: header_valid_def spec_header_checks_def)
  from hdr_fields_append [OF this, of x] assms show ?thesis
    by (simp add: header_valid_def spec_header_checks_def)
qed






























section \<open>The round trip\<close>

lemma unpack_le_le_bytes: "n < 256 ^ k \<Longrightarrow> unpack_le (le_bytes k n) = n"
proof (induction k arbitrary: n)
  case 0
  then show ?case by simp
next
  case (Suc k)
  then have "n div 256 < 256 ^ k" by (simp add: less_mult_imp_div_less mult.commute)
  with Suc.IH have "unpack_le (le_bytes k (n div 256)) = n div 256" by simp
  moreover have "unat (of_nat (n mod 256) :: byte) = n mod 256"
    by (simp add: unat_of_nat)
  ultimately show ?case by simp
qed

text \<open>
  The name field \<^verbatim>\<open>_build_meta\<close> writes and the 16 fixed bytes before it; \<open>build_meta_eq\<close> shows
  that a header whose name fits is these, the name and zero padding.
\<close>

definition name_bytes :: "pylib \<Rightarrow> string \<Rightarrow> bytes" where
  "name_bytes lib fp = take 255 (utf8_encode lib (basename lib fp))"

definition fixed_part :: "nat \<Rightarrow> nat \<Rightarrow> nat \<Rightarrow> bytes" where
  "fixed_part mlen name_len fsize =
     magic @ [1] @ le_bytes 2 mlen @ [of_nat name_len] @ le_bytes 8 fsize"

lemma length_fixed_part [simp]: "length (fixed_part mlen name_len fsize) = 16"
  by (simp add: fixed_part_def magic_bytes)

lemma build_meta_eq:
  assumes "16 + length (name_bytes lib fp) \<le> mlen" "mlen < 65536" "stat_ok env"
  shows "build_meta lib env fp mlen =
           Inr (fixed_part mlen (length (name_bytes lib fp)) (get_size env) @ name_bytes lib fp @
                replicate (mlen - (16 + length (name_bytes lib fp))) 0)"
proof -
  define nb where "nb = name_bytes lib fp"
  define header where
    "header = ascii ''FILE'' @ [1] @ le_bytes 2 mlen @ [of_nat (length nb)] @
              le_bytes 8 (get_size env) @ nb"
  have n: "length nb < 256" by (simp add: nb_def name_bytes_def)
  have l1: "le_bytes 1 n = [of_nat (n mod 256)]" for n
    using le_bytes.simps(2) [of 0 n] by simp
  have packs: "pack_le 1 1 = Inr [1]" "pack_le 2 mlen = Inr (le_bytes 2 mlen)"
    "pack_le 1 (length nb) = Inr [of_nat (length nb)]"
    "pack_le 8 (get_size env) = Inr (le_bytes 8 (get_size env))"
    using assms(2,3) n by (simp_all add: pack_le_def stat_ok_def l1)
  have bm: "build_meta lib env fp mlen =
      Inr (if length header < mlen then header @ replicate (mlen - length header) 0
           else take mlen header)"
    unfolding build_meta_def Let_def name_bytes_def [symmetric] nb_def [symmetric] packs
    by (simp add: header_def)
  have h: "header = fixed_part mlen (length nb) (get_size env) @ nb"
    by (simp add: header_def fixed_part_def magic_def)
  have len: "length header = 16 + length nb" unfolding h by simp
  show ?thesis
  proof (cases "length header < mlen")
    case True
    then show ?thesis unfolding bm using len by (simp add: h nb_def)
  next
    case False
    with assms(1) len have "length header = mlen" by (simp add: nb_def)
    then show ?thesis unfolding bm using len by (simp add: h nb_def)
  qed
qed

lemma fixed_part_fields:
  "py_slice 0 4 (fixed_part a b c @ t) = magic"
  "(fixed_part a b c @ t) ! 4 = 1"
  "py_slice 5 7 (fixed_part a b c @ t) = le_bytes 2 a"
  "(fixed_part a b c @ t) ! 7 = of_nat b"
  "py_slice 8 16 (fixed_part a b c @ t) = le_bytes 8 c"
  "py_slice 16 (16 + n) (fixed_part a b c @ t) = take n t"
  by (simp_all add: fixed_part_def magic_bytes py_slice_def nth_append)

lemma built_header_valid:
  assumes "16 + length nb \<le> mlen" "mlen \<le> 4096" "length nb < 256" "0 < fsize" "fsize \<le> 2 ^ 30"
  defines "m \<equiv> fixed_part mlen (length nb) fsize @ nb @ replicate (mlen - (16 + length nb)) 0"
  shows "header_valid m 0" "hdr_meta_len m 0 = mlen" "hdr_file_size m 0 = fsize"
    "hdr_name_len m 0 = length nb" "length m = mlen"
    "py_slice 16 (16 + hdr_name_len m 0) m = nb"
proof -
  have ml: "mlen < 256 ^ 2" using assms(2) by simp
  have fl: "fsize < 256 ^ 8" using assms(5) by simp
  show a: "hdr_meta_len m 0 = mlen"
    unfolding hdr_meta_len_def m_def using fixed_part_fields(3) [of mlen] unpack_le_le_bytes [OF ml]
    by simp
  show b: "hdr_file_size m 0 = fsize"
    unfolding hdr_file_size_def m_def using fixed_part_fields(5) [of _ _ fsize] unpack_le_le_bytes [OF fl]
    by simp
  show c: "hdr_name_len m 0 = length nb"
    unfolding hdr_name_len_def m_def using fixed_part_fields(4) [of _ "length nb"] assms(3)
    by (simp add: unat_of_nat)
  show d: "length m = mlen" unfolding m_def using assms(1) by simp
  show "py_slice 16 (16 + hdr_name_len m 0) m = nb"
    unfolding c unfolding m_def using fixed_part_fields(6) [of "length nb"] by simp
  show "header_valid m 0"
    unfolding header_valid_def spec_header_checks_def a b c d
    using assms fixed_part_fields(1,2) [of mlen "length nb" fsize "nb @ replicate (mlen - (16 + length nb)) 0"]
    by (simp add: m_def)
qed







lemma le_bytes_numeral:
  "le_bytes (numeral k) n = of_nat (n mod 256) # le_bytes (pred_numeral k) (n div 256)"
proof -
  have "(numeral k :: nat) = Suc (pred_numeral k)" by (rule numeral_eq_Suc)
  then show ?thesis by (simp only: le_bytes.simps)
qed





section \<open>The concrete scenario\<close>

text \<open>
  The two packets of the scenario, in the specification's words: \<^verbatim>\<open>FILE\<close>, \<open>0x01\<close>, 512 as two
  bytes and 10 as eight, little-endian, with 5 between them, \<^verbatim>\<open>a.txt\<close>, zeros up to 512 bytes;
  and \<^verbatim>\<open>0123456789\<close> followed by 502 zero bytes.
\<close>

definition scenario_header :: bytes where
  "scenario_header =
     ascii ''FILE'' @ [1] @ [0, 2] @ [5] @ [10, 0, 0, 0, 0, 0, 0, 0] @ ascii ''a.txt'' @
     replicate 491 0"


lemma scenario_header_eq:
  "scenario_header = fixed_part 512 (length (ascii ''a.txt'')) 10 @ ascii ''a.txt'' @
     replicate (512 - (16 + length (ascii ''a.txt''))) 0"
  by (simp add: scenario_header_def fixed_part_def magic_def le_bytes_numeral ascii_def)

lemma scenario_header_valid:
  "header_valid scenario_header 0" "hdr_meta_len scenario_header 0 = 512"
  "hdr_file_size scenario_header 0 = 10" "length scenario_header = 512"
  "py_slice 16 (16 + hdr_name_len scenario_header 0) scenario_header = ascii ''a.txt''"
  unfolding scenario_header_eq
  by (rule built_header_valid; simp add: ascii_def)+





text \<open>
  With \<^verbatim>\<open>repeat=False\<close> the second packet of the same scenario is all zeros: the iteration that
  reads the last bytes of the file switches to the \<^verbatim>\<open>zeros\<close> phase, and the last statement of the
  loop body then overwrites the packet it has just filled.
\<close>

lemma no_repeat_last_packet_zeroed:
  "map_sum id snd (tx_session posix_lib ten_byte_file ''a.txt'' 512 False ''packet_len'' [1024])
     = Inr (scenario_header @ replicate 512 0)"
proof -
  let ?env = ten_byte_file
  have ok: "stat_ok ?env" by (simp add: stat_ok_def get_size_def ten_byte_file_def)
  have gs: "get_size ?env = 10" "contents ?env = Some (ascii ''0123456789'')"
    by (simp_all add: get_size_def ten_byte_file_def)
  have nb: "name_bytes posix_lib ''a.txt'' = ascii ''a.txt''"
    by (simp add: name_bytes_def posix_lib_def posix_basename_def ascii_encode_def ascii_def)
  have bm: "build_meta posix_lib ?env ''a.txt'' 512 = Inr scenario_header"
    using build_meta_eq [of posix_lib "''a.txt''" 512 ?env] ok
    by (simp add: nb gs scenario_header_eq) (simp add: ascii_def)
  from tx_init_ok [OF _ _ ok, of 512 posix_lib "''a.txt''" False "''packet_len''"] bm obtain s0 where
    s0: "tx_init posix_lib ?env ''a.txt'' 512 False ''packet_len'' = Inr s0" "tx_meta_len s0 = 512"
        "phase s0 = Meta" "repeat s0 = False" "tx_meta s0 = scenario_header"
    by auto
  let ?s1 = "s0\<lparr>tags := tags s0 @ [(nitems_written s0 + 0, len_tag_key s0, 512)],
               file_bytes_left := get_size ?env, tx_fh := contents ?env, phase := File\<rparr>"
  have p1: "tx_packet posix_lib ?env 512 s0 0 = Inr (?s1, scenario_header)"
    using tx_packet_Meta [OF s0(3), of 512 posix_lib ?env 0] s0(5) scenario_header_valid(4) by simp
  have ne: "phase ?s1 \<noteq> Meta" by simp
  have fh1: "tx_fh ?s1 = Some (ascii ''0123456789'')" by (simp add: gs)
  have left1: "0 < file_bytes_left ?s1" by (simp add: gs)
  have p2: "map_sum id snd (tx_packet posix_lib ?env 512 ?s1 (0 + 512)) = Inr (replicate 512 0)"
    unfolding tx_packet_read [OF ne fh1 left1] using s0(4)
    by (simp add: gs Let_def ascii_def)
  then obtain s2 where s2: "tx_packet posix_lib ?env 512 ?s1 (0 + 512) = Inr (s2, replicate 512 0)"
    by (cases "tx_packet posix_lib ?env 512 ?s1 (0 + 512)") auto
  have "tx_loop posix_lib ?env 512 s0 0 (Suc (Suc 0)) = Inr (s2, [scenario_header, replicate 512 0])"
    using p1 s2 unfolding tx_loop.simps by simp
  then have "tx_general_work posix_lib ?env s0 1024 =
      Inr (s2\<lparr>nitems_written := nitems_written s2 + 1024 div 512 * 512\<rparr>,
           scenario_header @ replicate 512 0)"
    using s0(2) by (simp add: tx_general_work_def Let_def numeral_2_eq_2)
  with s0(1) show ?thesis by (simp add: tx_session_def)
qed

end
